theory Spec2Isabelle
  imports Complex_Main
begin

section \<open>Embedding of the analysis engine of \<^verbatim>\<open>src/App.tsx\<close>\<close>

text \<open>
  The pure functions of the Vigenere lab are translated one by one.  A JavaScript string
  is the list of its UTF-16 code units (\<^verbatim>\<open>s.length\<close> is the length of that list,
  \<^verbatim>\<open>s.charCodeAt(i)\<close> its \<open>i\<close>-th element).  JavaScript numbers that hold integers
  are \<open>int\<close> or \<open>nat\<close>; the quotients computed by \<^verbatim>\<open>ioc\<close> and
  \<^verbatim>\<open>chiForShift\<close> are exact rationals, so the rounding of IEEE doubles is not part
  of the model.
\<close>

subsection \<open>JavaScript primitives\<close>

type_synonym jsstring = "nat list"

text \<open>\<^verbatim>\<open>a % b\<close> on integers: the remainder takes the sign of the dividend.  Every
  divisor in the source is positive: the constant 26, a key length checked to be positive,
  or a factor counted up from 2.\<close>

definition jsrem :: "int \<Rightarrow> int \<Rightarrow> int" where
  "jsrem a b = (if a < 0 then - ((- a) mod \<bar>b\<bar>) else a mod \<bar>b\<bar>)"

text \<open>\<^verbatim>\<open>xs[i]\<close> on an array: \<open>None\<close> is \<^verbatim>\<open>undefined\<close>.\<close>

definition jsIndex :: "'a list \<Rightarrow> int \<Rightarrow> 'a option" where
  "jsIndex xs i = (if 0 \<le> i \<and> nat i < length xs then Some (xs ! nat i) else None)"

text \<open>\<^verbatim>\<open>String.fromCharCode(x)\<close> for an integer \<open>x\<close>: one code unit, \<open>x\<close> modulo
  \<open>2^16\<close>.\<close>

definition fromCharCode :: "int \<Rightarrow> nat" where
  "fromCharCode x = nat (x mod 65536)"

text \<open>The regular expression \<^verbatim>\<open>/[A-Za-z]/\<close> on one code unit.\<close>

definition isAsciiLetter :: "nat \<Rightarrow> bool" where
  "isAsciiLetter c = ((65 \<le> c \<and> c \<le> 90) \<or> (97 \<le> c \<and> c \<le> 122))"

text \<open>\<^verbatim>\<open>ch.toUpperCase()\<close>, used by the source only on a character that matched
  \<^verbatim>\<open>/[A-Za-z]/\<close>.\<close>

definition toUpperCase :: "nat \<Rightarrow> nat" where
  "toUpperCase c = (if 97 \<le> c \<and> c \<le> 122 then c - 32 else c)"

definition isUpper :: "nat \<Rightarrow> bool" where
  "isUpper c = (65 \<le> c \<and> c \<le> 90)"

definition isHighSurrogate :: "nat \<Rightarrow> bool" where
  "isHighSurrogate c = (55296 \<le> c \<and> c \<le> 56319)"

definition isLowSurrogate :: "nat \<Rightarrow> bool" where
  "isLowSurrogate c = (56320 \<le> c \<and> c \<le> 57343)"

text \<open>\<^verbatim>\<open>for (const ch of s)\<close> iterates by code point: a high surrogate followed by a
  low surrogate is one \<open>ch\<close> of two code units, every other code unit is a \<open>ch\<close> of
  its own.\<close>

fun codePoints :: "jsstring \<Rightarrow> jsstring list" where
  "codePoints [] = []"
| "codePoints [c] = [[c]]"
| "codePoints (c # d # cs) =
     (if isHighSurrogate c \<and> isLowSurrogate d then [c, d] # codePoints cs
      else [c] # codePoints (d # cs))"

text \<open>\<^verbatim>\<open>ch.charCodeAt(0)\<close> for every \<open>ch\<close> of that iteration: the first code unit of
  each code point.\<close>

fun codePointHeads :: "jsstring \<Rightarrow> nat list" where
  "codePointHeads [] = []"
| "codePointHeads [c] = [c]"
| "codePointHeads (c # d # cs) =
     (if isHighSurrogate c \<and> isLowSurrogate d then c # codePointHeads cs
      else c # codePointHeads (d # cs))"

subsection \<open>Index of coincidence\<close>

text \<open>
  \<^verbatim>\<open>const c = new Array(26).fill(0);
  for (let i = 0; i < s.length; i++) c[s.charCodeAt(i) - 65]++;\<close>

  One step of the counting loop.  An index from 0 to 25 increments its counter.  An index
  of 26 or more writes \<^verbatim>\<open>NaN\<close> beyond the end of the array (the incremented value
  of \<^verbatim>\<open>undefined\<close>), which the later \<^verbatim>\<open>for (const x of c)\<close> reads: the flag records
  it.  A negative index sets a property that the iteration never visits.
\<close>

fun countStep :: "nat list \<times> bool \<Rightarrow> nat \<Rightarrow> nat list \<times> bool" where
  "countStep (c, nan) ch =
     (let i = int ch - 65 in
      if 0 \<le> i \<and> i < 26 then (c[nat i := c ! nat i + 1], nan)
      else if 26 \<le> i then (c, True)
      else (c, nan))"

text \<open>
  \<^verbatim>\<open>if (s.length < 2) return 0; ...
  const N = s.length; let num = 0; for (const x of c) num += x * (x - 1);
  return num / (N * (N - 1));\<close>

  The result \<open>None\<close> is \<^verbatim>\<open>NaN\<close>.
\<close>

definition ioc :: "jsstring \<Rightarrow> rat option" where
  "ioc s =
     (if length s < 2 then Some 0
      else
        (case foldl countStep (replicate 26 0, False) s of
           (c, nan) \<Rightarrow>
             let N = int (length s);
                 num = foldl (\<lambda>num x. num + int x * (int x - 1)) 0 c
             in if nan then None else Some (of_int num / of_int (N * (N - 1)))))"

text \<open>The letter count \<open>c\<^sub>i\<close> of the specification: the occurrences of the \<open>i\<close>-th
  letter of the alphabet.\<close>

definition letterCount :: "jsstring \<Rightarrow> nat \<Rightarrow> nat" where
  "letterCount s i = count_list s (65 + i)"

subsection \<open>The column splitter\<close>

text \<open>
  \<^verbatim>\<open>function splitColumns(s, k) { const cols = Array.from({ length: k }, () => "");
    for (let i = 0; i < s.length; i++) cols[i % k] += s[i]; return cols; }\<close>

  With \<open>k = 0\<close> the array is empty and \<^verbatim>\<open>i % 0\<close> is \<^verbatim>\<open>NaN\<close>, which is no index:
  the array stays empty.
\<close>

fun splitLoop :: "nat \<Rightarrow> jsstring \<Rightarrow> nat \<Rightarrow> jsstring list \<Rightarrow> jsstring list" where
  "splitLoop k [] i cols = cols"
| "splitLoop k (c # cs) i cols =
     splitLoop k cs (Suc i)
       (if k = 0 then cols else cols[i mod k := cols ! (i mod k) @ [c]])"

definition splitColumns :: "jsstring \<Rightarrow> nat \<Rightarrow> jsstring list" where
  "splitColumns s k = splitLoop k s 0 (replicate k [])"

text \<open>Round-robin reassembly, following the specification's words: the characters are
  taken back one at a time, the \<open>i\<close>-th from the front of column \<open>i mod k\<close>.  It is
  the reader of a column set, not a function of the source.\<close>

fun roundRobin :: "jsstring list \<Rightarrow> nat \<Rightarrow> nat \<Rightarrow> jsstring" where
  "roundRobin cols i 0 = []"
| "roundRobin cols i (Suc n) =
     (if cols = [] then []
      else
        (case cols ! (i mod length cols) of
           [] \<Rightarrow> []
         | c # rest \<Rightarrow> c # roundRobin (cols[i mod length cols := rest]) (Suc i) n))"

subsection \<open>Kasiski repeats\<close>

text \<open>\<^verbatim>\<open>const map: Record<string, number[]> = {}\<close>: the own properties of the object, in
  the order of their insertion.\<close>

type_synonym repeatMap = "(jsstring \<times> nat list) list"

text \<open>The exception of \<^verbatim>\<open>(map[g] ||= []).push(i)\<close> when \<^verbatim>\<open>map[g]\<close> is found on
  \<^verbatim>\<open>Object.prototype\<close>: the inherited value is truthy and has no \<^verbatim>\<open>push\<close>.\<close>

datatype jsError = TypeError

definition inheritedKeys :: "jsstring list" where
  "inheritedKeys = map (map of_char)
     [''constructor'', ''hasOwnProperty'', ''isPrototypeOf'', ''propertyIsEnumerable'',
      ''toLocaleString'', ''toString'', ''valueOf'', ''__proto__'', ''__defineGetter__'',
      ''__defineSetter__'', ''__lookupGetter__'', ''__lookupSetter__'']"

text \<open>\<^verbatim>\<open>(map[g] ||= []).push(i)\<close> for a key that is the object's own or on no prototype:
  a new key goes to the end.\<close>

fun pushPos :: "repeatMap \<Rightarrow> jsstring \<Rightarrow> nat \<Rightarrow> repeatMap" where
  "pushPos [] g i = [(g, [i])]"
| "pushPos ((h, ps) # m) g i =
     (if h = g then (h, ps @ [i]) # m else (h, ps) # pushPos m g i)"

text \<open>\<^verbatim>\<open>s.slice(a, b)\<close> for \<open>0 \<le> a \<le> b\<close>.\<close>

definition slice :: "jsstring \<Rightarrow> nat \<Rightarrow> nat \<Rightarrow> jsstring" where
  "slice s a b = take (b - a) (drop a s)"

text \<open>
  The loop of \<^verbatim>\<open>findRepeats\<close>, from the current \<open>i\<close>:
  \<^verbatim>\<open>for (let i = 0; i <= s.length - n; i++) {
    const g = s.slice(i, i + n); (map[g] ||= []).push(i); }\<close>
\<close>

function repeatsLoop :: "jsstring \<Rightarrow> nat \<Rightarrow> nat \<Rightarrow> repeatMap \<Rightarrow> jsError + repeatMap" where
  "repeatsLoop s n i m =
     (if i + n \<le> length s then
        (let g = slice s i (i + n) in
         if g \<notin> fst ` set m \<and> g \<in> set inheritedKeys then Inl TypeError
         else repeatsLoop s n (i + 1) (pushPos m g i))
      else Inr m)"
  by pat_completeness auto
termination
  by (relation "measure (\<lambda>(s, n, i, m). Suc (length s) - (i + n))") auto

declare repeatsLoop.simps [simp del]

text \<open>
  \<^verbatim>\<open>Object.entries(map)\<close>: the keys that are array indices (canonical decimal numerals
  below \<open>2^32 - 1\<close>) come first, in ascending numeric order, then the other keys in the
  order of their insertion.
\<close>

definition isDigit :: "nat \<Rightarrow> bool" where
  "isDigit c = (48 \<le> c \<and> c \<le> 57)"

definition digitsValue :: "jsstring \<Rightarrow> nat" where
  "digitsValue g = foldl (\<lambda>a c. 10 * a + (c - 48)) 0 g"

definition isIndexKey :: "jsstring \<Rightarrow> bool" where
  "isIndexKey g =
     (g \<noteq> [] \<and> list_all isDigit g \<and> (g = [48] \<or> hd g \<noteq> 48) \<and> digitsValue g \<le> 4294967294)"

definition objectEntries :: "repeatMap \<Rightarrow> repeatMap" where
  "objectEntries m =
     sort_key (\<lambda>e. digitsValue (fst e)) (filter (\<lambda>e. isIndexKey (fst e)) m)
     @ filter (\<lambda>e. \<not> isIndexKey (fst e)) m"

text \<open>
  \<^verbatim>\<open>return Object.entries(map).filter(([, pos]) => pos.length >= 2)
    .sort((a, b) => b[1].length - a[1].length).map(([gram, positions]) => ({ gram, positions }));\<close>

  \<^verbatim>\<open>Array.prototype.sort\<close> is stable, as is \<open>sort_key\<close>; the final \<^verbatim>\<open>map\<close> only
  renames the two components.
\<close>

definition findRepeats :: "jsstring \<Rightarrow> nat \<Rightarrow> jsError + repeatMap" where
  "findRepeats s n =
     (case repeatsLoop s n 0 [] of
        Inl e \<Rightarrow> Inl e
      | Inr m \<Rightarrow>
          Inr (sort_key (\<lambda>e. - int (length (snd e)))
                 (filter (\<lambda>e. 2 \<le> length (snd e)) (objectEntries m))))"

text \<open>The start positions of a gram in the stream, in ascending order, and the order of
  the repeat table: more occurrences first, and among equal counts the gram seen first.\<close>

definition occurrences :: "jsstring \<Rightarrow> jsstring \<Rightarrow> nat list" where
  "occurrences s g =
     filter (\<lambda>i. take (length g) (drop i s) = g) [0..<Suc (length s) - length g]"

definition ranksBefore :: "jsstring \<times> nat list \<Rightarrow> jsstring \<times> nat list \<Rightarrow> bool" where
  "ranksBefore a b =
     (length (snd b) < length (snd a)
      \<or> (length (snd a) = length (snd b) \<and> hd (snd a) < hd (snd b)))"

subsection \<open>Kasiski factor votes\<close>

text \<open>\<^verbatim>\<open>Record<number, number>\<close>: a finite map from integer keys to counts.\<close>

type_synonym voteTable = "int \<Rightarrow> nat option"

text \<open>\<^verbatim>\<open>(votes[f] || 0)\<close>\<close>

definition orZero :: "nat option \<Rightarrow> nat" where
  "orZero v = (case v of None \<Rightarrow> 0 | Some n \<Rightarrow> n)"

text \<open>
  The inner loop of \<^verbatim>\<open>factorVotes\<close>, from the current \<open>f\<close>:
  \<^verbatim>\<open>for (let f = 2; f <= Math.min(limit, d); f++) {
    if (d % f === 0) votes[f] = (votes[f] || 0) + 1; }\<close>
\<close>

function factorLoop :: "int \<Rightarrow> int \<Rightarrow> int \<Rightarrow> voteTable \<Rightarrow> voteTable" where
  "factorLoop d limit f votes =
     (if f \<le> min limit d
      then factorLoop d limit (f + 1)
             (if jsrem d f = 0 then votes(f \<mapsto> orZero (votes f) + 1) else votes)
      else votes)"
  by pat_completeness auto
termination
  by (relation "measure (\<lambda>(d, limit, f, votes). nat (min limit d + 1 - f))") auto

declare factorLoop.simps [simp del]

text \<open>\<^verbatim>\<open>const votes = {}; for (const d of distances) { ... } return votes;\<close>\<close>

definition factorVotes :: "int list \<Rightarrow> int \<Rightarrow> voteTable" where
  "factorVotes distances limit = foldl (\<lambda>votes d. factorLoop d limit 2 votes) Map.empty distances"

text \<open>The number of votes the specification gives to \<open>f\<close>: one for every distance
  \<open>d\<close> with \<open>f\<close> in \<open>[2, min(limit, d)]\<close> and \<open>d mod f = 0\<close>.\<close>

definition votesFor :: "int list \<Rightarrow> int \<Rightarrow> int \<Rightarrow> nat" where
  "votesFor distances limit f =
     length (filter (\<lambda>d. 2 \<le> f \<and> f \<le> min limit d \<and> d mod f = 0) distances)"

subsection \<open>Chi-square scorer\<close>

text \<open>\<^verbatim>\<open>const ENG = [0.08167, 0.01492, ...]\<close>: the English letter frequencies, as exact
  decimal fractions.\<close>

definition ENG :: "rat list" where
  "ENG =
    [8167 / 100000, 1492 / 100000, 2782 / 100000, 4253 / 100000, 12702 / 100000,
     2228 / 100000, 2015 / 100000, 6094 / 100000, 6966 / 100000, 153 / 100000,
     772 / 100000, 4025 / 100000, 2406 / 100000, 6749 / 100000, 7507 / 100000,
     1929 / 100000, 95 / 100000, 5987 / 100000, 6327 / 100000, 9056 / 100000,
     2758 / 100000, 978 / 100000, 2360 / 100000, 150 / 100000, 1974 / 100000,
     74 / 100000]"

text \<open>
  \<^verbatim>\<open>const i = (ch.charCodeAt(0) - 65 - k + 26) % 26; freq[i]++;\<close>

  The remainder is below 26.  When it is negative the increment sets a property that is
  no element of the array, and the 26 counters stay as they are.
\<close>

definition freqStep :: "int \<Rightarrow> nat list \<Rightarrow> nat \<Rightarrow> nat list" where
  "freqStep k freq c =
     (let i = jsrem (int c - 65 - k + 26) 26 in
      if 0 \<le> i then freq[nat i := freq ! nat i + 1] else freq)"

text \<open>\<^verbatim>\<open>(E || 1)\<close>: 1 when \<open>E\<close> is zero, \<open>E\<close> otherwise.\<close>

definition orOne :: "rat \<Rightarrow> rat" where
  "orOne E = (if E = 0 then 1 else E)"

text \<open>\<^verbatim>\<open>const E = ENG[i] * N; const O = freq[i]; chi += (O - E) * (O - E) / (E || 1);\<close>\<close>

definition chiTerm :: "nat list \<Rightarrow> nat \<Rightarrow> nat \<Rightarrow> rat" where
  "chiTerm freq N i =
     (let E = ENG ! i * of_nat N; Obs = of_nat (freq ! i) in (Obs - E) * (Obs - E) / orOne E)"

text \<open>
  \<^verbatim>\<open>const N = col.length; if (N === 0) return 1e9; const freq = new Array(26).fill(0);
  for (const ch of col) { ... }
  let chi = 0; for (let i = 0; i < 26; i++) { ... } return chi;\<close>
\<close>

definition chiForShift :: "jsstring \<Rightarrow> int \<Rightarrow> rat" where
  "chiForShift col k =
     (let N = length col in
      if N = 0 then 1000000000
      else
        let freq = foldl (freqStep k) (replicate 26 0) (codePointHeads col)
        in foldl (\<lambda>chi i. chi + chiTerm freq N i) 0 [0..<26])"

text \<open>The specification's histogram \<open>O\<close> and expectation \<open>E\<close>: \<open>O\<^sub>i\<close> counts the
  letters of the column with \<open>(letterValue - shift) mod 26 = i\<close>, and
  \<open>E\<^sub>i = englishFreq\<^sub>i \<times> N\<close>.\<close>

definition observed :: "jsstring \<Rightarrow> int \<Rightarrow> nat \<Rightarrow> nat" where
  "observed col shift i = length (filter (\<lambda>c. (int c - 65 - shift) mod 26 = int i) col)"

definition expected :: "jsstring \<Rightarrow> nat \<Rightarrow> rat" where
  "expected col i = ENG ! i * of_nat (length col)"

text \<open>The statistic as the specification words it, with the divisor \<open>max(E\<^sub>i, 1)\<close>.\<close>

definition chiSpec :: "jsstring \<Rightarrow> int \<Rightarrow> rat" where
  "chiSpec col shift =
     (\<Sum>i\<leftarrow>[0..<26].
        (of_nat (observed col shift i) - expected col i)\<^sup>2 / max (expected col i) 1)"

text \<open>\<^verbatim>\<open>Number(x.toFixed(3))\<close>: the nearest multiple of \<open>1/1000\<close>, a tie going to the
  larger magnitude.\<close>

definition toFixed3 :: "rat \<Rightarrow> rat" where
  "toFixed3 x =
     (if x < 0 then - (of_int \<lfloor>- x * 1000 + 1 / 2\<rfloor> / 1000)
      else of_int \<lfloor>x * 1000 + 1 / 2\<rfloor> / 1000)"

text \<open>\<^verbatim>\<open>Array.from({ length: 26 }, (_, s) =>
    ({ shift: s, chi: Number(chiForShift(activeCol, s).toFixed(3)) }))\<close>\<close>

definition chiData :: "jsstring \<Rightarrow> (nat \<times> rat) list" where
  "chiData activeCol = map (\<lambda>s. (s, toFixed3 (chiForShift activeCol (int s)))) [0..<26]"

text \<open>\<^verbatim>\<open>chiData.reduce((best, d) => (d.chi < best.chi ? d : best),
    chiData[0] || { shift: 0, chi: 1e9 }).shift\<close>\<close>

definition bestShift :: "jsstring \<Rightarrow> nat" where
  "bestShift activeCol =
     fst (foldl (\<lambda>best d. if snd d < snd best then d else best)
            (case chiData activeCol of [] \<Rightarrow> (0, 1000000000) | d0 # _ \<Rightarrow> d0)
            (chiData activeCol))"

subsection \<open>Working key length\<close>

text \<open>Truthiness of a \<^verbatim>\<open>number | null | undefined\<close> holding an integer, and
  \<^verbatim>\<open>a || b\<close>.\<close>

definition truthy :: "int option \<Rightarrow> bool" where
  "truthy v = (case v of None \<Rightarrow> False | Some n \<Rightarrow> n \<noteq> 0)"

definition orElse :: "int option \<Rightarrow> int option \<Rightarrow> int option" where
  "orElse a b = (if truthy a then a else b)"

text \<open>\<^verbatim>\<open>xs[0]?.k\<close>\<close>

definition firstK :: "(int \<times> 'a) list \<Rightarrow> int option" where
  "firstK xs = (case xs of [] \<Rightarrow> None | d # _ \<Rightarrow> Some (fst d))"

text \<open>
  \<^verbatim>\<open>Object.entries(kasiskiVotes).map(([k, v]) => ({ k: Number(k), votes: v }))
    .filter((d) => d.k <= maxK).sort((a, b) => a.k - b.k)\<close>

  The vote table is given by its entries \<open>(k, votes)\<close>.
\<close>

definition kasiskiData :: "(int \<times> nat) list \<Rightarrow> int \<Rightarrow> (int \<times> nat) list" where
  "kasiskiData kasiskiVotes maxK = sort_key fst (filter (\<lambda>d. fst d \<le> maxK) kasiskiVotes)"

text \<open>
  \<^verbatim>\<open>if (selectedK) return selectedK;
  const k1 = [...kasiskiData].sort((a, b) => b.votes - a.votes)[0]?.k;
  const k2 = [...iocData].sort((a, b) => b.ioc - a.ioc)[0]?.k;
  return k1 || k2 || 1;\<close>

  The stable sort by descending votes is \<open>sort_key\<close> on the negated votes.
\<close>

definition workingK :: "int option \<Rightarrow> (int \<times> nat) list \<Rightarrow> (int \<times> rat) list \<Rightarrow> int" where
  "workingK selectedK kData iocData =
     (if truthy selectedK then (case selectedK of Some p \<Rightarrow> p | None \<Rightarrow> 1)
      else
        let k1 = firstK (sort_key (\<lambda>d. - int (snd d)) kData);
            k2 = firstK (sort_key (\<lambda>d. - snd d) iocData)
        in (case orElse (orElse k1 k2) (Some 1) of Some k \<Rightarrow> k | None \<Rightarrow> 1))"

text \<open>The candidate the specification names: an entry of the table with the highest
  value, and among those the smallest \<open>k\<close>.\<close>

definition topCandidate :: "(int \<times> 'v::linorder) list \<Rightarrow> int \<Rightarrow> bool" where
  "topCandidate table k =
     (\<exists>v. (k, v) \<in> set table \<and> (\<forall>(k', v') \<in> set table. v' < v \<or> (v' = v \<and> k \<le> k')))"

subsection \<open>The decoder\<close>

text \<open>The placeholder: the middle dot U+00B7, one code unit.\<close>

definition placeholder :: nat where
  "placeholder = 183"

text \<open>\<^verbatim>\<open>(number | null)[]\<close> with integer shifts: \<open>None\<close> is \<^verbatim>\<open>null\<close>.\<close>

type_synonym keyShifts = "int option list"

text \<open>
  The letter branch of the loop body of \<^verbatim>\<open>decodePartial\<close>:
  \<^verbatim>\<open>const upper = ch.toUpperCase(); const s = keyShifts[j % k];
  if (s === null || s === undefined) { out += placeholder; j++; continue; }
  const p = String.fromCharCode(((upper.charCodeAt(0) - 65 - s + 26) % 26) + 65);\<close>
\<close>

definition decodeLetter :: "keyShifts \<Rightarrow> int \<Rightarrow> int \<Rightarrow> nat \<Rightarrow> nat" where
  "decodeLetter keyShifts k j c =
     (case jsIndex keyShifts (jsrem j k) of
        Some (Some s) \<Rightarrow> fromCharCode (jsrem (int (toUpperCase c) - 65 - s + 26) 26 + 65)
      | _ \<Rightarrow> placeholder)"

text \<open>One iteration of \<^verbatim>\<open>for (const ch of original)\<close> on the state \<open>(j, out)\<close>.  A
  \<open>ch\<close> of two code units is a surrogate pair, which \<^verbatim>\<open>/[A-Za-z]/\<close> does not match.\<close>

fun decodeStep :: "keyShifts \<Rightarrow> int \<Rightarrow> int \<times> jsstring \<Rightarrow> jsstring \<Rightarrow> int \<times> jsstring" where
  "decodeStep keyShifts k (j, out) ch =
     (case ch of
        [c] \<Rightarrow> (if isAsciiLetter c then (j + 1, out @ [decodeLetter keyShifts k j c])
                else (j, out @ ch))
      | _ \<Rightarrow> (j, out @ ch))"

text \<open>\<^verbatim>\<open>if (!original || k <= 0) return original;\<close> and then the loop.\<close>

definition decodePartial :: "jsstring \<Rightarrow> keyShifts \<Rightarrow> int \<Rightarrow> jsstring" where
  "decodePartial original keyShifts k =
     (if original = [] \<or> k \<le> 0 then original
      else snd (foldl (decodeStep keyShifts k) (0, []) (codePoints original)))"

text \<open>A determined slot of the key state holds a shift between 0 and 25.\<close>

definition validShift :: "int \<Rightarrow> bool" where
  "validShift s = (0 \<le> s \<and> s \<le> 25)"

definition validKeyState :: "keyShifts \<Rightarrow> bool" where
  "validKeyState ks =
     list_all (\<lambda>slot. case slot of None \<Rightarrow> True | Some v \<Rightarrow> validShift v) ks"

text \<open>The number of letters among the first \<open>i\<close> code units: the value of the counter
  \<open>j\<close> when the loop reaches position \<open>i\<close>.\<close>

definition lettersBefore :: "jsstring \<Rightarrow> nat \<Rightarrow> nat" where
  "lettersBefore s i = length (filter isAsciiLetter (take i s))"

text \<open>The encoder of the round-trip property, following the specification's words (the
  source has no encoder): each letter is shifted forward by the shift of its column, the
  column being the number of letters seen so far modulo the key length; the case of the
  letter is kept and every other character is copied.\<close>

definition shiftLetter :: "int \<Rightarrow> nat \<Rightarrow> nat" where
  "shiftLetter s c =
     (if 65 \<le> c \<and> c \<le> 90 then 65 + nat ((int c - 65 + s) mod 26)
      else if 97 \<le> c \<and> c \<le> 122 then 97 + nat ((int c - 97 + s) mod 26)
      else c)"

fun encodeFrom :: "int list \<Rightarrow> nat \<Rightarrow> jsstring \<Rightarrow> jsstring" where
  "encodeFrom shifts j [] = []"
| "encodeFrom shifts j (c # cs) =
     (if isAsciiLetter c
      then shiftLetter (shifts ! (j mod length shifts)) c # encodeFrom shifts (j + 1) cs
      else c # encodeFrom shifts j cs)"

definition encodeColumns :: "int list \<Rightarrow> jsstring \<Rightarrow> jsstring" where
  "encodeColumns shifts plain = encodeFrom shifts 0 plain"

subsection \<open>Auxiliary definitions of the proofs\<close>

text \<open>The decoder, one code unit at a time: a surrogate is no letter and is copied, so
  the grouping into code points does not show in the result (lemma
  \<open>decodePartial_units\<close>).\<close>

fun decodeUnits :: "keyShifts \<Rightarrow> int \<Rightarrow> int \<Rightarrow> jsstring \<Rightarrow> jsstring" where
  "decodeUnits keyShifts k j [] = []"
| "decodeUnits keyShifts k j (c # cs) =
     (if isAsciiLetter c then decodeLetter keyShifts k j c # decodeUnits keyShifts k (j + 1) cs
      else c # decodeUnits keyShifts k j cs)"

text \<open>The scorer on a column without surrogates, where every code unit is a code point.\<close>

definition chiUnits :: "jsstring \<Rightarrow> int \<Rightarrow> rat" where
  "chiUnits col k =
     (let N = length col in
      if N = 0 then 1000000000
      else
        let freq = foldl (freqStep k) (replicate 26 0) col
        in foldl (\<lambda>chi i. chi + chiTerm freq N i) 0 [0..<26])"

text \<open>The invariant of the loop of \<open>findRepeats\<close> before index \<open>i\<close>: every gram seen
  so far is a key, once, with the positions seen so far, and the keys are in the order of
  their first positions.\<close>

definition repeatsInv :: "jsstring \<Rightarrow> nat \<Rightarrow> nat \<Rightarrow> repeatMap \<Rightarrow> bool" where
  "repeatsInv s n i m =
     (distinct (map fst m)
      \<and> (\<forall>e\<in>set m. snd e \<noteq> [] \<and> snd e = filter (\<lambda>j. slice s j (j + n) = fst e) [0..<i])
      \<and> (\<forall>j<i. slice s j (j + n) \<in> fst ` set m)
      \<and> sorted_wrt (\<lambda>a b. hd (snd a) < hd (snd b)) m)"

section \<open>Properties\<close>

subsection \<open>Column splitter\<close>

lemma length_splitLoop: "length (splitLoop k s i cols) = length cols"
  by (induction s arbitrary: i cols) simp_all

lemma splitLoop_prepend:
  "length cols = k \<Longrightarrow> 0 < k \<Longrightarrow>
   splitLoop k s i cols = map2 (@) cols (splitLoop k s i (replicate k []))"
proof (induction s arbitrary: i cols)
  case Nil
  then show ?case by (simp add: list_eq_iff_nth_eq)
next
  case (Cons c cs)
  let ?m = "i mod k"
  let ?R = "splitLoop k cs (Suc i) (replicate k [])"
  have lenR: "length ?R = k" by (simp add: length_splitLoop)
  have m: "?m < k" using Cons.prems by simp
  have a: "splitLoop k (c # cs) i cols = map2 (@) (cols[?m := cols ! ?m @ [c]]) ?R"
    using Cons.IH[of "cols[?m := cols ! ?m @ [c]]" "Suc i"] Cons.prems by simp
  have b: "splitLoop k (c # cs) i (replicate k []) = map2 (@) ((replicate k [])[?m := [c]]) ?R"
    using Cons.IH[of "(replicate k [])[?m := [c]]" "Suc i"] Cons.prems m
    by simp
  show ?case
    unfolding a b using Cons.prems lenR
    by (auto simp: list_eq_iff_nth_eq nth_list_update)
qed

lemma splitLoop_fresh_Cons:
  assumes "0 < k"
  shows "splitLoop k (c # cs) i (replicate k []) =
         (splitLoop k cs (Suc i) (replicate k []))
           [i mod k := c # splitLoop k cs (Suc i) (replicate k []) ! (i mod k)]"
proof -
  let ?m = "i mod k"
  let ?R = "splitLoop k cs (Suc i) (replicate k [])"
  have lenR: "length ?R = k" by (simp add: length_splitLoop)
  have m: "?m < k" using assms by simp
  have "splitLoop k (c # cs) i (replicate k []) = splitLoop k cs (Suc i) ((replicate k [])[?m := [c]])"
    using assms m by simp
  also have "\<dots> = map2 (@) ((replicate k [])[?m := [c]]) ?R"
    using splitLoop_prepend[of "(replicate k [])[?m := [c]]" k cs "Suc i"] assms by simp
  also have "\<dots> = ?R[?m := c # ?R ! ?m]"
    using lenR m by (auto simp: list_eq_iff_nth_eq nth_list_update)
  finally show ?thesis .
qed

lemma splitLoop_column:
  assumes "0 < k" "j < k"
  shows "splitLoop k s i (replicate k []) ! j =
         map (\<lambda>p. s ! p) (filter (\<lambda>p. (i + p) mod k = j) [0..<length s])"
  using assms
proof (induction s arbitrary: i)
  case Nil
  then show ?case by simp
next
  case (Cons c cs)
  let ?R = "splitLoop k cs (Suc i) (replicate k [])"
  have lenR: "length ?R = k" by (simp add: length_splitLoop)
  have upt: "[0..<length (c # cs)] = 0 # map Suc [0..<length cs]"
    by (simp add: upt_conv_Cons map_Suc_upt del: upt_Suc)
  show ?case
    unfolding splitLoop_fresh_Cons[OF Cons.prems(1)] upt
    using Cons.IH[of "Suc i"] Cons.prems lenR
    by (auto simp: nth_list_update filter_map o_def)
qed

lemma splitLoop_sum:
  assumes "0 < k"
  shows "sum_list (map length (splitLoop k s i (replicate k []))) = length s"
  using assms
proof (induction s arbitrary: i)
  case Nil
  then show ?case by (simp add: sum_list_replicate)
next
  case (Cons c cs)
  let ?R = "splitLoop k cs (Suc i) (replicate k [])"
  have lenR: "length ?R = k" by (simp add: length_splitLoop)
  have m: "i mod k < length ?R" using Cons.prems lenR by simp
  have "sum_list (map length (?R[i mod k := c # ?R ! (i mod k)])) = Suc (sum_list (map length ?R))"
    using m by (simp add: map_update sum_list_update)
  then show ?case
    unfolding splitLoop_fresh_Cons[OF Cons.prems(1)] using Cons.IH[of "Suc i"] Cons.prems by simp
qed

lemma roundRobin_splitLoop:
  assumes "0 < k"
  shows "roundRobin (splitLoop k s i (replicate k [])) i (length s) = s"
  using assms
proof (induction s arbitrary: i)
  case Nil
  then show ?case by simp
next
  case (Cons c cs)
  let ?R = "splitLoop k cs (Suc i) (replicate k [])"
  have lenR: "length ?R = k" by (simp add: length_splitLoop)
  have m: "i mod k < length ?R" using Cons.prems lenR by simp
  have ne: "?R \<noteq> []" using Cons.prems lenR by auto
  show ?case
    unfolding splitLoop_fresh_Cons[OF Cons.prems(1)]
    using Cons.IH[of "Suc i"] Cons.prems lenR m ne by simp
qed

text \<open>
  Claim C4.  For every stream and every \<open>k \<ge> 1\<close>, \<open>splitColumns\<close> returns exactly
  \<open>k\<close> columns; column \<open>i\<close> holds, in their order, the characters at the positions
  congruent to \<open>i\<close> modulo \<open>k\<close>; the lengths of the columns add up to the length of
  the stream; and round-robin reassembly gives the stream back.
\<close>

theorem splitColumns_partition:
  assumes "1 \<le> k"
  shows "length (splitColumns s k) = k
       \<and> (\<forall>i<k. splitColumns s k ! i =
             map (\<lambda>p. s ! p) (filter (\<lambda>p. p mod k = i) [0..<length s]))
       \<and> sum_list (map length (splitColumns s k)) = length s
       \<and> roundRobin (splitColumns s k) 0 (length s) = s"
  using assms splitLoop_column[of k _ s 0] splitLoop_sum[of k s 0] roundRobin_splitLoop[of k s 0]
  by (simp add: splitColumns_def length_splitLoop)

theorem splitColumns_partition_witness:
  "(1::nat) \<le> 3
   \<and> length (splitColumns [65,66,67,68,69,70,71] 3) = 3
   \<and> splitColumns [65,66,67,68,69,70,71] 3 ! 1 =
       map (\<lambda>p. [65,66,67,68,69,70,71] ! p)
         (filter (\<lambda>p. p mod 3 = 1) [0..<length [65,66,67,68,69,70,71::nat]])
   \<and> splitColumns [65,66,67,68,69,70,71] 3 ! 1 = [66, 69]
   \<and> sum_list (map length (splitColumns [65,66,67,68,69,70,71] 3))
       = length [65,66,67,68,69,70,71::nat]
   \<and> roundRobin (splitColumns [65,66,67,68,69,70,71] 3) 0 (length [65,66,67,68,69,70,71::nat])
       = [65,66,67,68,69,70,71]"
proof -
  have h: "(1::nat) \<le> 3" and lt: "(1::nat) < 3" by simp_all
  have e: "splitColumns [65,66,67,68,69,70,71] 3 ! 1 = [66, 69]"
    by code_simp
  from splitColumns_partition[OF h, of "[65,66,67,68,69,70,71]"] h lt e show ?thesis
    by blast
qed

subsection \<open>Index of coincidence\<close>

lemma foldl_countStep:
  assumes "list_all isUpper s" "length c = 26"
  shows "foldl countStep (c, nan) s = (map (\<lambda>i. c ! i + letterCount s i) [0..<26], nan)"
  using assms
proof (induction s arbitrary: c)
  case Nil
  then show ?case by (simp add: letterCount_def list_eq_iff_nth_eq)
next
  case (Cons ch s)
  from Cons.prems have "isUpper ch" and s: "list_all isUpper s"
    by simp_all
  then have ch: "65 \<le> ch" "ch \<le> 90"
    by (simp_all add: isUpper_def)
  let ?i = "ch - 65"
  have i: "?i < 26" using ch by simp
  have st: "countStep (c, nan) ch = (c[?i := c ! ?i + 1], nan)"
    using ch by (simp add: Let_def nat_diff_distrib')
  have "map (\<lambda>j. c[?i := c ! ?i + 1] ! j + letterCount s j) [0..<26]
        = map (\<lambda>j. c ! j + letterCount (ch # s) j) [0..<26]"
  proof (rule map_cong[OF refl])
    fix j assume "j \<in> set [0..<26]"
    then have j: "j < 26" by simp
    have "ch = 65 + j \<longleftrightarrow> ?i = j" using ch by auto
    then show "c[?i := c ! ?i + 1] ! j + letterCount s j = c ! j + letterCount (ch # s) j"
      using j i Cons.prems(2) by (auto simp: letterCount_def nth_list_update)
  qed
  then show ?case
    using Cons.IH[OF s, of "c[?i := c ! ?i + 1]"] Cons.prems(2) st by simp
qed

lemma foldl_add: "foldl (\<lambda>a x. a + f x) (a0::'a::comm_monoid_add) xs = a0 + sum_list (map f xs)"
  by (induction xs arbitrary: a0) (simp_all add: add.assoc)

text \<open>
  Claim C5.  For a stream of uppercase letters of length \<open>N \<ge> 2\<close>, \<open>ioc\<close> is
  \<open>\<Sum> c\<^sub>i (c\<^sub>i - 1) / (N (N - 1))\<close> over the 26 letter counts; for every stream of
  length below 2 it is 0; and \<open>ioc "AAAA" = 1\<close>, \<open>ioc "" = 0\<close>, \<open>ioc "A" = 0\<close>.
\<close>

theorem ioc_formula:
  "(list_all isUpper s \<and> 2 \<le> length s \<longrightarrow>
      ioc s = Some (of_int (\<Sum>i\<leftarrow>[0..<26]. int (letterCount s i) * (int (letterCount s i) - 1))
                    / of_int (int (length s) * (int (length s) - 1))))
   \<and> (length s < 2 \<longrightarrow> ioc s = Some 0)
   \<and> ioc [65, 65, 65, 65] = Some 1 \<and> ioc [] = Some 0 \<and> ioc [65] = Some 0"
proof -
  have a: "ioc s = Some (of_int (\<Sum>i\<leftarrow>[0..<26]. int (letterCount s i) * (int (letterCount s i) - 1))
                    / of_int (int (length s) * (int (length s) - 1)))"
    if "list_all isUpper s" "2 \<le> length s"
  proof -
    have "foldl countStep (replicate 26 0, False) s = (map (letterCount s) [0..<26], False)"
      using foldl_countStep[OF that(1), of "replicate 26 0" False]
      by (simp cong: map_cong)
    moreover have "sum_list (map (\<lambda>x. int x * (int x - 1)) (map (letterCount s) [0..<26]))
                   = (\<Sum>i\<leftarrow>[0..<26]. int (letterCount s i) * (int (letterCount s i) - 1))"
      by (simp only: map_map o_def)
    ultimately show ?thesis
      using that(2) by (simp add: ioc_def foldl_add)
  qed
  have b: "ioc [65, 65, 65, 65] = Some 1"
    by code_simp
  show ?thesis using a b by (simp add: ioc_def)
qed

theorem ioc_formula_witness:
  "list_all isUpper [65, 66, 65, 66, 65, 66, 65, 66] \<and> 2 \<le> length [65, 66, 65, 66, 65, 66, 65, 66::nat]
   \<and> ioc [65, 66, 65, 66, 65, 66, 65, 66] =
       Some (of_int (\<Sum>i\<leftarrow>[0..<26]. int (letterCount [65, 66, 65, 66, 65, 66, 65, 66] i)
                                    * (int (letterCount [65, 66, 65, 66, 65, 66, 65, 66] i) - 1))
             / of_int (int (length [65, 66, 65, 66, 65, 66, 65, 66::nat])
                       * (int (length [65, 66, 65, 66, 65, 66, 65, 66::nat]) - 1)))
   \<and> ioc [65, 66, 65, 66, 65, 66, 65, 66] = Some (24 / 56)
   \<and> length [65::nat] < 2 \<and> ioc [65] = Some 0"
proof -
  have h: "list_all isUpper [65, 66, 65, 66, 65, 66, 65, 66]"
          "2 \<le> length [65, 66, 65, 66, 65, 66, 65, 66::nat]" "length [65::nat] < 2"
    by (simp_all add: isUpper_def)
  have e: "ioc [65, 66, 65, 66, 65, 66, 65, 66] = Some (24 / 56)"
    by code_simp
  from ioc_formula[of "[65, 66, 65, 66, 65, 66, 65, 66]"] ioc_formula[of "[65]"] h e
  show ?thesis by blast
qed

subsection \<open>Kasiski repeats\<close>

lemma pushPos_new: "g \<notin> fst ` set m \<Longrightarrow> pushPos m g i = m @ [(g, [i])]"
  by (induction m) auto

lemma pushPos_old:
  "g \<in> fst ` set m \<Longrightarrow> distinct (map fst m) \<Longrightarrow>
   pushPos m g i = map (\<lambda>e. if fst e = g then (fst e, snd e @ [i]) else e) m"
proof (induction m)
  case Nil
  then show ?case by simp
next
  case (Cons e m)
  obtain h ps where e: "e = (h, ps)" by (cases e)
  show ?case
  proof (cases "h = g")
    case True
    then have "g \<notin> fst ` set m" using Cons.prems(2) e by auto
    then have "map (\<lambda>e. if fst e = g then (fst e, snd e @ [i]) else e) m = m"
      by (intro map_idI) auto
    then show ?thesis using True e by simp
  next
    case False
    then show ?thesis using Cons e by auto
  qed
qed

lemma repeatsInv_step:
  assumes "repeatsInv s n i m"
  shows "repeatsInv s n (Suc i) (pushPos m (slice s i (i + n)) i)"
proof (cases "slice s i (i + n) \<in> fst ` set m")
  case True
  let ?g = "slice s i (i + n)"
  let ?u = "\<lambda>e. if fst e = ?g then (fst e, snd e @ [i]) else e"
  from assms[unfolded repeatsInv_def] have d: "distinct (map fst m)"
    and c: "\<forall>e\<in>set m. snd e \<noteq> [] \<and> snd e = filter (\<lambda>j. slice s j (j + n) = fst e) [0..<i]"
    and k: "\<forall>j<i. slice s j (j + n) \<in> fst ` set m"
    and o: "sorted_wrt (\<lambda>a b. hd (snd a) < hd (snd b)) m"
    by blast+
  have p: "pushPos m ?g i = map ?u m" by (rule pushPos_old[OF True d])
  have fst_u: "fst (?u e) = fst e" for e by simp
  have hd_u: "hd (snd (?u e)) = hd (snd e)" if "e \<in> set m" for e
    using c that by auto
  have "fst \<circ> ?u = fst" by (rule ext) simp
  then have mf: "map fst (map ?u m) = map fst m"
    by (simp only: map_map)
  then have 1: "distinct (map fst (map ?u m))"
    using d by (simp only:)
  have keys: "fst ` set (map ?u m) = fst ` set m"
    using arg_cong[OF mf, of set] by (simp only: set_map)
  have 2: "\<forall>e\<in>set (map ?u m).
             snd e \<noteq> [] \<and> snd e = filter (\<lambda>j. slice s j (j + n) = fst e) [0..<Suc i]"
    using c by auto
  have 3: "\<forall>j<Suc i. slice s j (j + n) \<in> fst ` set (map ?u m)"
  proof (intro allI impI)
    fix j assume "j < Suc i"
    then have "slice s j (j + n) \<in> fst ` set m"
      using k True by (cases "j = i") auto
    then show "slice s j (j + n) \<in> fst ` set (map ?u m)"
      by (simp only: keys)
  qed
  have 4: "sorted_wrt (\<lambda>a b. hd (snd a) < hd (snd b)) (map ?u m)"
    unfolding sorted_wrt_map
    by (rule sorted_wrt_mono_rel[OF _ o]) (simp add: hd_u del: split_paired_All)
  show ?thesis
    unfolding p repeatsInv_def using 1 2 3 4 by blast
next
  case False
  let ?g = "slice s i (i + n)"
  from assms[unfolded repeatsInv_def] have d: "distinct (map fst m)"
    and c: "\<forall>e\<in>set m. snd e \<noteq> [] \<and> snd e = filter (\<lambda>j. slice s j (j + n) = fst e) [0..<i]"
    and k: "\<forall>j<i. slice s j (j + n) \<in> fst ` set m"
    and o: "sorted_wrt (\<lambda>a b. hd (snd a) < hd (snd b)) m"
    by blast+
  have p: "pushPos m ?g i = m @ [(?g, [i])]" by (rule pushPos_new[OF False])
  have none: "filter (\<lambda>j. slice s j (j + n) = ?g) [0..<i] = []"
    unfolding filter_empty_conv using k False by (metis atLeastLessThan_iff set_upt)
  have old: "filter (\<lambda>j. slice s j (j + n) = fst e) [0..<Suc i]
             = filter (\<lambda>j. slice s j (j + n) = fst e) [0..<i]" if "e \<in> set m" for e
    using that False by (auto simp: image_iff)
  have hd_lt: "hd (snd e) < i" if "e \<in> set m" for e
  proof -
    have ne: "snd e \<noteq> []" using c that by blast
    have eq: "snd e = filter (\<lambda>j. slice s j (j + n) = fst e) [0..<i]" using c that by blast
    have "hd (snd e) \<in> set (snd e)" by (rule hd_in_set[OF ne])
    moreover have "set (snd e) \<subseteq> set [0..<i]" by (subst eq) (rule filter_is_subset)
    ultimately have "hd (snd e) \<in> set [0..<i]" by blast
    then show ?thesis by simp
  qed
  have 1: "distinct (map fst (m @ [(?g, [i])]))" using d False by simp
  have 2: "\<forall>e\<in>set (m @ [(?g, [i])]).
             snd e \<noteq> [] \<and> snd e = filter (\<lambda>j. slice s j (j + n) = fst e) [0..<Suc i]"
    using c old none by auto
  have 3: "\<forall>j<Suc i. slice s j (j + n) \<in> fst ` set (m @ [(?g, [i])])"
    using k by (auto simp: less_Suc_eq)
  have 4: "sorted_wrt (\<lambda>a b. hd (snd a) < hd (snd b)) (m @ [(?g, [i])])"
    using o hd_lt by (simp add: sorted_wrt_append)
  show ?thesis
    unfolding p repeatsInv_def using 1 2 3 4 by blast
qed


lemma inheritedKeys_not_upper: "g \<in> set inheritedKeys \<Longrightarrow> \<not> list_all isUpper g"
  by (auto simp: inheritedKeys_def isUpper_def)

lemma slice_upper: "list_all isUpper s \<Longrightarrow> list_all isUpper (slice s a b)"
  by (auto simp: slice_def list_all_iff dest: in_set_takeD in_set_dropD)

lemma repeatsLoop_inv:
  "list_all isUpper s \<Longrightarrow> repeatsInv s n i m \<Longrightarrow>
   \<exists>m'. repeatsLoop s n i m = Inr m' \<and> repeatsInv s n (max i (Suc (length s) - n)) m'"
proof (induction s n i m rule: repeatsLoop.induct)
  case (1 s n i m)
  show ?case
  proof (cases "i + n \<le> length s")
    case True
    let ?g = "slice s i (i + n)"
    have ok: "\<not> (?g \<notin> fst ` set m \<and> ?g \<in> set inheritedKeys)"
      using inheritedKeys_not_upper[of ?g] slice_upper[OF "1.prems"(1)] by blast
    have "repeatsInv s n (i + 1) (pushPos m ?g i)"
      using repeatsInv_step[OF "1.prems"(2)] by simp
    from "1.IH"[OF True refl ok "1.prems"(1) this]
    obtain m' where m': "repeatsLoop s n (i + 1) (pushPos m ?g i) = Inr m'"
      "repeatsInv s n (max (i + 1) (Suc (length s) - n)) m'"
      by blast
    have "max (i + 1) (Suc (length s) - n) = max i (Suc (length s) - n)"
      using True by simp
    then show ?thesis
      using m' True ok by (subst repeatsLoop.simps) (simp add: Let_def)
  next
    case False
    then have "max i (Suc (length s) - n) = i" by simp
    then show ?thesis
      using False "1.prems"(2) by (subst repeatsLoop.simps) simp
  qed
qed

lemma sorted_wrt_stable:
  fixes f :: "'a \<Rightarrow> 'k::linorder"
  assumes "sorted (map f xs)" "\<And>k. sorted_wrt Q (filter (\<lambda>y. f y = k) xs)"
  shows "sorted_wrt (\<lambda>a b. f a < f b \<or> (f a = f b \<and> Q a b)) xs"
  using assms
proof (induction xs)
  case Nil
  then show ?case by simp
next
  case (Cons x xs)
  have tail: "sorted_wrt Q (filter (\<lambda>y. f y = k) xs)" for k
    using Cons.prems(2)[of k] by (cases "f x = k") simp_all
  have "f x < f y \<or> (f x = f y \<and> Q x y)" if y: "y \<in> set xs" for y
  proof (cases "f x = f y")
    case True
    have "sorted_wrt Q (x # filter (\<lambda>z. f z = f x) xs)"
      using Cons.prems(2)[of "f x"] by simp
    then show ?thesis using y True by auto
  next
    case False
    moreover have "f x \<le> f y" using Cons.prems(1) y by simp
    ultimately show ?thesis by simp
  qed
  moreover have "sorted_wrt (\<lambda>a b. f a < f b \<or> (f a = f b \<and> Q a b)) xs"
    using Cons.IH[OF _ tail] Cons.prems(1) by simp
  ultimately show ?case by simp
qed

lemma sort_key_ranks:
  fixes f :: "'a \<Rightarrow> 'k::linorder"
  assumes "sorted_wrt Q xs"
  shows "sorted_wrt (\<lambda>a b. f a < f b \<or> (f a = f b \<and> Q a b)) (sort_key f xs)"
proof (rule sorted_wrt_stable)
  show "sorted (map f (sort_key f xs))" by (rule sorted_sort_key)
  show "sorted_wrt Q (filter (\<lambda>y. f y = k) (sort_key f xs))" for k
    unfolding sort_key_stable by (rule sorted_wrt_filter[OF assms])
qed


lemma upper_not_index: "list_all isUpper g \<Longrightarrow> \<not> isIndexKey g"
  by (cases g) (auto simp: isIndexKey_def isUpper_def isDigit_def)

lemma length_slice: "j + n \<le> length s \<Longrightarrow> length (slice s j (j + n)) = n"
  by (simp add: slice_def)

lemma occurrences_slice:
  "length g = n \<Longrightarrow>
   filter (\<lambda>j. slice s j (j + n) = g) [0..<Suc (length s) - n] = occurrences s g"
  by (simp add: occurrences_def slice_def)

lemma findRepeats_ABABABAB:
  "findRepeats [65, 66, 65, 66, 65, 66, 65, 66] 2
   = Inr [([65, 66], [0, 2, 4, 6]), ([66, 65], [1, 3, 5])]"
  by (simp add: findRepeats_def repeatsLoop.simps slice_def inheritedKeys_def objectEntries_def
        isIndexKey_def isDigit_def)

text \<open>
  Claim C8.  For every stream of uppercase letters and every \<open>n\<close>, \<open>findRepeats\<close>
  returns a table (no exception) that holds exactly the substrings of length \<open>n\<close> with at
  least two occurrences, each once and with the ascending list of its start positions,
  ordered by occurrence count descending and, among equal counts, by first occurrence;
  and the table is empty when \<open>n\<close> exceeds the length of the stream.
\<close>

theorem findRepeats_table:
  assumes "list_all isUpper s"
  shows "\<exists>r. findRepeats s n = Inr r
             \<and> (\<forall>g ps. (g, ps) \<in> set r \<longleftrightarrow>
                         length g = n \<and> ps = occurrences s g \<and> 2 \<le> length ps)
             \<and> distinct (map fst r)
             \<and> sorted_wrt ranksBefore r
             \<and> (length s < n \<longrightarrow> r = [])"
proof -
  let ?K = "Suc (length s) - n"
  let ?f = "\<lambda>e :: jsstring \<times> nat list. - int (length (snd e))"
  let ?P = "\<lambda>e :: jsstring \<times> nat list. 2 \<le> length (snd e)"
  let ?Q = "\<lambda>a b :: jsstring \<times> nat list. hd (snd a) < hd (snd b)"
  have "repeatsInv s n 0 []" by (simp add: repeatsInv_def)
  from repeatsLoop_inv[OF assms this]
  obtain m where m: "repeatsLoop s n 0 [] = Inr m" and inv: "repeatsInv s n ?K m"
    by auto
  from inv[unfolded repeatsInv_def] have d: "distinct (map fst m)"
    and c: "\<forall>e\<in>set m. snd e \<noteq> [] \<and> snd e = filter (\<lambda>j. slice s j (j + n) = fst e) [0..<?K]"
    and k: "\<forall>j<?K. slice s j (j + n) \<in> fst ` set m"
    and o: "sorted_wrt ?Q m"
    by blast+
  have key: "\<exists>j<?K. slice s j (j + n) = fst e" if "e \<in> set m" for e
  proof -
    have ne: "snd e \<noteq> []" using c that by blast
    have eq: "snd e = filter (\<lambda>j. slice s j (j + n) = fst e) [0..<?K]" using c that by blast
    have "hd (snd e) \<in> set (snd e)" by (rule hd_in_set[OF ne])
    then have "hd (snd e) \<in> set (filter (\<lambda>j. slice s j (j + n) = fst e) [0..<?K])"
      by (subst (asm) (2) eq)
    then show ?thesis by auto
  qed
  have noidx: "\<not> isIndexKey (fst e)" if "e \<in> set m" for e
    using key[OF that] slice_upper[OF assms] upper_not_index by metis
  have "filter (\<lambda>e. isIndexKey (fst e)) m = []" "filter (\<lambda>e. \<not> isIndexKey (fst e)) m = m"
    using noidx by (simp_all add: filter_empty_conv filter_id_conv)
  then have entries: "objectEntries m = m"
    by (simp add: objectEntries_def)
  define r where "r = sort_key ?f (filter ?P m)"
  have res: "findRepeats s n = Inr r"
    by (simp add: findRepeats_def m entries r_def)
  have setr: "set r = {e \<in> set m. ?P e}"
    by (simp add: r_def)
  have mem: "(g, ps) \<in> set m \<longleftrightarrow>
             ps \<noteq> [] \<and> ps = filter (\<lambda>j. slice s j (j + n) = g) [0..<?K]" for g ps
  proof
    assume "(g, ps) \<in> set m"
    then show "ps \<noteq> [] \<and> ps = filter (\<lambda>j. slice s j (j + n) = g) [0..<?K]"
      using c by force
  next
    assume a: "ps \<noteq> [] \<and> ps = filter (\<lambda>j. slice s j (j + n) = g) [0..<?K]"
    then have "filter (\<lambda>j. slice s j (j + n) = g) [0..<?K] \<noteq> []" by metis
    then obtain j where "j < ?K" "slice s j (j + n) = g"
      by (auto simp: filter_empty_conv)
    then have "g \<in> fst ` set m" using k by blast
    then obtain ps' where p: "(g, ps') \<in> set m" by force
    then have "ps' = filter (\<lambda>j. slice s j (j + n) = g) [0..<?K]" using c by force
    then show "(g, ps) \<in> set m" using p a by simp
  qed
  have len: "length g = n" if "(g, ps) \<in> set m" for g ps
  proof -
    from key[OF that] obtain j where j: "j < ?K" "slice s j (j + n) = g" by auto
    then have "j + n \<le> length s" by simp
    then show ?thesis using length_slice j(2) by blast
  qed
  have 1: "(g, ps) \<in> set r \<longleftrightarrow> length g = n \<and> ps = occurrences s g \<and> 2 \<le> length ps" for g ps
  proof
    assume "(g, ps) \<in> set r"
    then have in_m: "(g, ps) \<in> set m" and two: "2 \<le> length ps" by (simp_all add: setr)
    have n: "length g = n" by (rule len[OF in_m])
    have "ps = filter (\<lambda>j. slice s j (j + n) = g) [0..<?K]" using in_m mem by blast
    then have "ps = occurrences s g" by (simp only: occurrences_slice[OF n])
    then show "length g = n \<and> ps = occurrences s g \<and> 2 \<le> length ps" using n two by blast
  next
    assume a: "length g = n \<and> ps = occurrences s g \<and> 2 \<le> length ps"
    then have "ps = filter (\<lambda>j. slice s j (j + n) = g) [0..<?K]"
      by (simp only: occurrences_slice)
    moreover have "ps \<noteq> []" using a by auto
    ultimately have "(g, ps) \<in> set m" using mem by blast
    moreover have "2 \<le> length ps" using a by blast
    ultimately show "(g, ps) \<in> set r" by (simp add: setr)
  qed
  have "distinct (map fst (filter ?P m))" using d by (rule distinct_map_filter)
  then have 2: "distinct (map fst r)"
    by (simp add: r_def distinct_map)
  have "sorted_wrt (\<lambda>a b. ?f a < ?f b \<or> (?f a = ?f b \<and> ?Q a b)) r"
    unfolding r_def by (rule sort_key_ranks) (rule sorted_wrt_filter[OF o])
  then have 3: "sorted_wrt ranksBefore r"
    by (rule sorted_wrt_mono_rel[rotated]) (auto simp: ranksBefore_def)
  have 4: "r = []" if "length s < n"
  proof -
    have "?K = 0" using that by simp
    then have "\<forall>e\<in>set m. snd e \<noteq> [] \<and> snd e = []" using c by simp
    then have "m = []" by (cases m) auto
    then show ?thesis by (simp add: r_def)
  qed
  show ?thesis using res 1 2 3 4 by blast
qed


theorem findRepeats_table_witness:
  "list_all isUpper [65, 66, 65, 66, 65, 66, 65, 66]
   \<and> findRepeats [65, 66, 65, 66, 65, 66, 65, 66] 2
       = Inr [([65, 66], [0, 2, 4, 6]), ([66, 65], [1, 3, 5])]
   \<and> occurrences [65, 66, 65, 66, 65, 66, 65, 66] [65, 66] = [0, 2, 4, 6]
   \<and> sorted_wrt ranksBefore [([65, 66], [0, 2, 4, 6]), ([66, 65], [1, 3, 5])]
   \<and> distinct (map fst [([65, 66], [0, 2, 4, 6::nat]), ([66, 65::nat], [1, 3, 5])])
   \<and> findRepeats [65, 66] 3 = Inr []"
proof -
  have u: "list_all isUpper [65, 66, 65, 66, 65, 66, 65, 66]" "list_all isUpper [65, 66]"
    by (simp_all add: isUpper_def)
  from findRepeats_table[OF u(1), of 2] findRepeats_ABABABAB
  have a: "([65, 66], [0, 2, 4, 6]) \<in> set [([65, 66], [0, 2, 4, 6]), ([66, 65], [1, 3, 5::nat])]
           \<longleftrightarrow> length [65, 66::nat] = 2
               \<and> [0, 2, 4, 6] = occurrences [65, 66, 65, 66, 65, 66, 65, 66] [65, 66]
               \<and> 2 \<le> length [0, 2, 4, 6::nat]"
    and b: "sorted_wrt ranksBefore [([65, 66], [0, 2, 4, 6]), ([66, 65], [1, 3, 5])]"
    and c: "distinct (map fst [([65, 66], [0, 2, 4, 6::nat]), ([66, 65::nat], [1, 3, 5])])"
    by auto
  from a have o: "occurrences [65, 66, 65, 66, 65, 66, 65, 66] [65, 66] = [0, 2, 4, 6]"
    by simp
  from findRepeats_table[OF u(2), of 3] have e: "findRepeats [65, 66] 3 = Inr []"
    by auto
  show ?thesis using u(1) findRepeats_ABABABAB o b c e by blast
qed

subsection \<open>Kasiski factor votes\<close>

lemma factorLoop_at:
  "factorLoop d limit f votes g =
     (if f \<le> g \<and> g \<le> min limit d \<and> jsrem d g = 0 then Some (orZero (votes g) + 1)
      else votes g)"
proof (induction d limit f votes rule: factorLoop.induct)
  case (1 d limit f votes)
  show ?case
  proof (cases "f \<le> min limit d")
    case True
    show ?thesis
      using "1.IH"[OF True] True
      by (subst factorLoop.simps) (auto simp: orZero_def)
  next
    case False
    then show ?thesis
      by (subst factorLoop.simps) auto
  qed
qed

lemma jsrem_mod: "0 \<le> a \<Longrightarrow> 0 < b \<Longrightarrow> jsrem a b = a mod b"
  by (simp add: jsrem_def)

lemma factorLoop_vote:
  "factorLoop d limit 2 votes g =
     (if 2 \<le> g \<and> g \<le> min limit d \<and> d mod g = 0 then Some (orZero (votes g) + 1)
      else votes g)"
proof -
  have "jsrem d g = d mod g" if "2 \<le> g" "g \<le> min limit d"
    using that by (intro jsrem_mod) auto
  then show ?thesis
    by (auto simp: factorLoop_at)
qed

lemma foldl_factorLoop:
  "foldl (\<lambda>votes d. factorLoop d limit 2 votes) votes ds g =
     (if votesFor ds limit g = 0 then votes g
      else Some (orZero (votes g) + votesFor ds limit g))"
proof (induction ds arbitrary: votes)
  case Nil
  then show ?case by (simp add: votesFor_def)
next
  case (Cons d ds)
  let ?v = "factorLoop d limit 2 votes"
  have step: "foldl (\<lambda>votes d. factorLoop d limit 2 votes) votes (d # ds) g =
              (if votesFor ds limit g = 0 then ?v g
               else Some (orZero (?v g) + votesFor ds limit g))"
    using Cons.IH[of ?v] by simp
  have here: "votesFor (d # ds) limit g =
              (if 2 \<le> g \<and> g \<le> min limit d \<and> d mod g = 0 then 1 else 0) + votesFor ds limit g"
    by (simp add: votesFor_def)
  have "(if votesFor ds limit g = 0 then ?v g
         else Some (orZero (?v g) + votesFor ds limit g))
        = (if votesFor (d # ds) limit g = 0 then votes g
           else Some (orZero (votes g) + votesFor (d # ds) limit g))"
    unfolding here factorLoop_vote by (simp add: orZero_def)
  with step show ?case by simp
qed

lemma votesFor_12:
  "votesFor [12] 30 f = (if f \<in> {2, 3, 4, 6, 12} then 1 else 0)"
proof -
  have "f \<in> {2, 3, 4, 6, 12}" if "2 \<le> f" "f \<le> 12" "12 mod f = 0"
  proof -
    from that(1,2)
    have "f = 2 \<or> f = 3 \<or> f = 4 \<or> f = 5 \<or> f = 6 \<or> f = 7 \<or> f = 8 \<or> f = 9 \<or> f = 10
          \<or> f = 11 \<or> f = 12"
      by arith
    then show ?thesis using that(3) by auto
  qed
  then show ?thesis by (auto simp: votesFor_def)
qed

text \<open>
  Claim C7.  For every list of distances and every limit, \<open>factorVotes\<close> holds for each
  \<open>f\<close> exactly the number of distances \<open>d\<close> with \<open>f\<close> in \<open>[2, min(limit, d)]\<close> and
  \<open>d mod f = 0\<close>, and no entry where that number is zero.  In particular
  \<open>factorVotes [12] 30\<close> has the factors 2, 3, 4, 6 and 12, each with count 1, and neither
  5 nor 24.
\<close>

theorem factorVotes_counts:
  "factorVotes distances limit f =
     (if votesFor distances limit f = 0 then None else Some (votesFor distances limit f))
   \<and> factorVotes [12] 30 = [2 \<mapsto> 1, 3 \<mapsto> 1, 4 \<mapsto> 1, 6 \<mapsto> 1, 12 \<mapsto> 1]
   \<and> dom (factorVotes [12] 30) = {2, 3, 4, 6, 12}
   \<and> factorVotes [12] 30 5 = None \<and> factorVotes [12] 30 24 = None"
proof -
  have general: "factorVotes ds l g = (if votesFor ds l g = 0 then None else Some (votesFor ds l g))"
    for ds l g
    by (simp add: factorVotes_def foldl_factorLoop orZero_def)
  have table: "factorVotes [12] 30 = [2 \<mapsto> 1, 3 \<mapsto> 1, 4 \<mapsto> 1, 6 \<mapsto> 1, 12 \<mapsto> 1]"
    by (rule ext) (simp add: general votesFor_12)
  have "dom (factorVotes [12] 30) = {2, 3, 4, 6, 12}"
    unfolding table by auto
  moreover have "factorVotes [12] 30 5 = None" "factorVotes [12] 30 24 = None"
    by (simp_all add: general votesFor_12)
  ultimately show ?thesis using general table by simp
qed

theorem factorVotes_counts_witness:
  "factorVotes [12, 18] 10 3 = Some 2 \<and> votesFor [12, 18] 10 3 = 2
   \<and> factorVotes [12, 18] 10 3 =
       (if votesFor [12, 18] 10 3 = 0 then None else Some (votesFor [12, 18] 10 3))"
proof -
  have "votesFor [12, 18] 10 3 = 2" by (simp add: votesFor_def)
  with factorVotes_counts[of "[12, 18]" 10 3] show ?thesis by simp
qed

subsection \<open>Chi-square scorer\<close>

lemma ENG_length: "length ENG = 26"
  by (simp add: ENG_def)

lemma ENG_pos: "i < 26 \<Longrightarrow> 0 < ENG ! i"
proof -
  have "list_all (\<lambda>e. 0 < e) ENG" by (simp add: ENG_def)
  then show "i < 26 \<Longrightarrow> 0 < ENG ! i"
    by (simp add: list_all_length ENG_length)
qed

lemma no_surrogate_heads:
  "list_all isUpper s \<Longrightarrow> codePointHeads s = s"
proof (induction s rule: codePointHeads.induct)
  case 1
  then show ?case by simp
next
  case (2 c)
  then show ?case by simp
next
  case (3 c d cs)
  then have "\<not> isHighSurrogate c"
    by (simp add: isUpper_def isHighSurrogate_def)
  then show ?case using 3 by simp
qed

lemma foldl_freqStep:
  assumes "list_all isUpper s" "length freq = 26" "0 \<le> k" "k \<le> 25"
  shows "foldl (freqStep k) freq s = map (\<lambda>i. freq ! i + observed s k i) [0..<26]"
  using assms(1,2)
proof (induction s arbitrary: freq)
  case Nil
  then show ?case by (simp add: observed_def list_eq_iff_nth_eq)
next
  case (Cons ch s)
  from Cons.prems have "isUpper ch" and s: "list_all isUpper s"
    by simp_all
  then have ch: "65 \<le> ch" "ch \<le> 90"
    by (simp_all add: isUpper_def)
  define m where "m = (int ch - 65 - k) mod 26"
  have m: "0 \<le> m" "m < 26" by (simp_all add: m_def)
  have nn: "0 \<le> int ch - 65 - k + 26" using ch assms(3,4) by linarith
  have "jsrem (int ch - 65 - k + 26) 26 = (int ch - 65 - k + 26) mod 26"
    using nn by (simp add: jsrem_def)
  also have "\<dots> = m" by (simp only: mod_add_self2 m_def)
  finally have idx: "jsrem (int ch - 65 - k + 26) 26 = m" .
  let ?i = "nat m"
  have i: "?i < 26" using m by simp
  have st: "freqStep k freq ch = freq[?i := freq ! ?i + 1]"
    unfolding freqStep_def idx using m by simp
  have "map (\<lambda>j. freq[?i := freq ! ?i + 1] ! j + observed s k j) [0..<26]
        = map (\<lambda>j. freq ! j + observed (ch # s) k j) [0..<26]"
  proof (rule map_cong[OF refl])
    fix j assume "j \<in> set [0..<26]"
    then have j: "j < 26" by simp
    have "m = int j \<longleftrightarrow> ?i = j" using m by auto
    then show "freq[?i := freq ! ?i + 1] ! j + observed s k j = freq ! j + observed (ch # s) k j"
      using j i Cons.prems(2) by (auto simp: observed_def nth_list_update m_def)
  qed
  then show ?case
    using Cons.IH[OF s, of "freq[?i := freq ! ?i + 1]"] Cons.prems(2) st by simp
qed

lemma chiForShift_units: "list_all isUpper col \<Longrightarrow> chiForShift col k = chiUnits col k"
  by (simp add: chiForShift_def chiUnits_def no_surrogate_heads)

lemma replicate26: "replicate 26 (0::nat) = [0,0,0,0,0,0,0,0,0,0,0,0,0,0,0,0,0,0,0,0,0,0,0,0,0,0]"
  by (simp add: numeral_eq_Suc)

lemma upt26: "[0..<26] = [0,1,2,3,4,5,6,7,8,9,10,11,12,13,14,15,16,17,18,19,20,21,22,23,24,25]"
  by code_simp

lemmas chi_eval = chiUnits_def freqStep_def jsrem_def chiTerm_def orOne_def ENG_def replicate26 upt26

lemma chiUnits_A: "chiUnits [65] 0 = 9183291833 / 816700000"
  by (simp add: chi_eval)

lemma chiSpec_A: "chiSpec [65] 0 = 1804313399 / 2000000000"
  by (simp add: chiSpec_def observed_def expected_def ENG_def upt26 power2_eq_square)

lemma toFixed3_ge:
  assumes "0 \<le> x" "of_int n \<le> x * 1000 + 1 / 2"
  shows "of_int n / 1000 \<le> toFixed3 x"
proof -
  have "n \<le> \<lfloor>x * 1000 + 1 / 2\<rfloor>" using assms(2) by (simp add: le_floor_iff)
  then have "(of_int n :: rat) \<le> of_int \<lfloor>x * 1000 + 1 / 2\<rfloor>" by simp
  then show ?thesis using assms(1) by (simp add: toFixed3_def divide_right_mono)
qed

lemma toFixed3_le:
  assumes "0 \<le> x" "x * 1000 + 1 / 2 < of_int n + 1"
  shows "toFixed3 x \<le> of_int n / 1000"
proof -
  have "\<lfloor>x * 1000 + 1 / 2\<rfloor> < n + 1"
    using assms(2) floor_less_iff[of "x * 1000 + 1 / 2" "n + 1"] by simp
  then have "(of_int \<lfloor>x * 1000 + 1 / 2\<rfloor> :: rat) \<le> of_int n" by simp
  then show ?thesis using assms(1) by (simp add: toFixed3_def divide_right_mono)
qed

lemma foldl_first_min:
  fixes f :: "nat \<Rightarrow> rat"
  shows "\<exists>b. foldl (\<lambda>best d. if snd d < snd best then d else best) (0, f 0)
               (map (\<lambda>s. (s, f s)) [0..<m]) = (b, f b)
             \<and> (b < m \<or> b = 0) \<and> (\<forall>s<m. f b \<le> f s) \<and> (\<forall>s<b. f b < f s)"
proof (induction m)
  case 0
  then show ?case by simp
next
  case (Suc m)
  then obtain b where b:
    "foldl (\<lambda>best d. if snd d < snd best then d else best) (0, f 0)
       (map (\<lambda>s. (s, f s)) [0..<m]) = (b, f b)"
    "b < m \<or> b = 0" "\<forall>s<m. f b \<le> f s" "\<forall>s<b. f b < f s"
    by blast
  show ?case
  proof (cases "f m < f b")
    case True
    have "\<forall>s<Suc m. f m \<le> f s"
      using True b(3) by (auto simp: less_Suc_eq intro: order_trans less_imp_le)
    moreover have "\<forall>s<m. f m < f s"
      using True b(3) by (auto intro: less_le_trans)
    ultimately show ?thesis
      using True b(1) by (intro exI[of _ m]) simp
  next
    case False
    then have "\<forall>s<Suc m. f b \<le> f s"
      using b(3) by (auto simp: less_Suc_eq)
    then show ?thesis
      using False b by (intro exI[of _ b]) auto
  qed
qed

lemma bestShift_fold:
  "bestShift col =
     fst (foldl (\<lambda>best d. if snd d < snd best then d else best)
            (0, toFixed3 (chiForShift col (int 0)))
            (map (\<lambda>s. (s, toFixed3 (chiForShift col (int s)))) [0..<26]))"
  by (simp add: bestShift_def chiData_def upt_rec[of 0 26])

lemma bestShift_least_min:
  "bestShift col < 26
   \<and> (\<forall>s<26. toFixed3 (chiForShift col (int (bestShift col))) \<le> toFixed3 (chiForShift col (int s)))
   \<and> (\<forall>s<bestShift col.
         toFixed3 (chiForShift col (int (bestShift col))) < toFixed3 (chiForShift col (int s)))"
proof -
  obtain b where b:
    "foldl (\<lambda>best d. if snd d < snd best then d else best)
       (0, toFixed3 (chiForShift col (int 0)))
       (map (\<lambda>s. (s, toFixed3 (chiForShift col (int s)))) [0..<26])
     = (b, toFixed3 (chiForShift col (int b)))"
    "b < 26 \<or> b = 0"
    "\<forall>s<26. toFixed3 (chiForShift col (int b)) \<le> toFixed3 (chiForShift col (int s))"
    "\<forall>s<b. toFixed3 (chiForShift col (int b)) < toFixed3 (chiForShift col (int s))"
    using foldl_first_min[of "\<lambda>s. toFixed3 (chiForShift col (int s))" 26] by blast
  have "bestShift col = b"
    unfolding bestShift_fold b(1) by simp
  then show ?thesis using b(2,3,4) by auto
qed

lemma bestShift_unique:
  assumes "b < 26"
    and "\<forall>s<26. toFixed3 (chiForShift col (int b)) \<le> toFixed3 (chiForShift col (int s))"
    and "\<forall>s<b. toFixed3 (chiForShift col (int b)) < toFixed3 (chiForShift col (int s))"
  shows "bestShift col = b"
proof (rule ccontr)
  assume ne: "bestShift col \<noteq> b"
  note c = bestShift_least_min[of col]
  show False
  proof (cases "bestShift col < b")
    case True
    then show ?thesis using assms(3) c assms(1) by (meson not_le)
  next
    case False
    then have "b < bestShift col" using ne by simp
    then show ?thesis using assms(1,2) c by (meson not_le)
  qed
qed

lemma chi_ABLNO_lower:
  "38485 / 2000 \<le> chiUnits [65, 66, 76, 78, 79] 0"
  "38485 / 2000 \<le> chiUnits [65, 66, 76, 78, 79] 1"
  "38485 / 2000 \<le> chiUnits [65, 66, 76, 78, 79] 2"
  "38485 / 2000 \<le> chiUnits [65, 66, 76, 78, 79] 3"
  "38485 / 2000 \<le> chiUnits [65, 66, 76, 78, 79] 4"
  "38485 / 2000 \<le> chiUnits [65, 66, 76, 78, 79] 5"
  "38485 / 2000 \<le> chiUnits [65, 66, 76, 78, 79] 6"
  by (simp_all add: chi_eval)

lemma chi_ABLNO_upper:
  "38483 / 2000 \<le> chiUnits [65, 66, 76, 78, 79] 8"
  "38483 / 2000 \<le> chiUnits [65, 66, 76, 78, 79] 9"
  "38483 / 2000 \<le> chiUnits [65, 66, 76, 78, 79] 10"
  "38483 / 2000 \<le> chiUnits [65, 66, 76, 78, 79] 11"
  "38483 / 2000 \<le> chiUnits [65, 66, 76, 78, 79] 12"
  "38483 / 2000 \<le> chiUnits [65, 66, 76, 78, 79] 13"
  "38483 / 2000 \<le> chiUnits [65, 66, 76, 78, 79] 14"
  "38483 / 2000 \<le> chiUnits [65, 66, 76, 78, 79] 15"
  "38483 / 2000 \<le> chiUnits [65, 66, 76, 78, 79] 16"
  "38483 / 2000 \<le> chiUnits [65, 66, 76, 78, 79] 17"
  "38483 / 2000 \<le> chiUnits [65, 66, 76, 78, 79] 18"
  "38483 / 2000 \<le> chiUnits [65, 66, 76, 78, 79] 19"
  "38483 / 2000 \<le> chiUnits [65, 66, 76, 78, 79] 20"
  "38483 / 2000 \<le> chiUnits [65, 66, 76, 78, 79] 21"
  "38483 / 2000 \<le> chiUnits [65, 66, 76, 78, 79] 22"
  "38483 / 2000 \<le> chiUnits [65, 66, 76, 78, 79] 23"
  "38483 / 2000 \<le> chiUnits [65, 66, 76, 78, 79] 24"
  "38483 / 2000 \<le> chiUnits [65, 66, 76, 78, 79] 25"
  by (simp_all add: chi_eval)

lemma chi_ABLNO_7:
  "38483 / 2000 \<le> chiUnits [65, 66, 76, 78, 79] 7"
  "chiUnits [65, 66, 76, 78, 79] 7 < 38485 / 2000"
  by (simp_all add: chi_eval)

lemma chi_ABLNO_9_7: "chiUnits [65, 66, 76, 78, 79] 9 < chiUnits [65, 66, 76, 78, 79] 7"
  by (simp add: chi_eval)


lemma all_less_upt: "(\<forall>s<n. P s) = list_all P [0..<n]"
  by (auto simp: list_all_iff)

lemma upt7: "[0..<7] = [0,1,2,3,4,5,6]"
  by code_simp

lemma round_lo: "38483 / 2000 \<le> x \<Longrightarrow> 19242 / 1000 \<le> toFixed3 x"
  using toFixed3_ge[of x 19242] by simp

lemma round_hi: "38485 / 2000 \<le> x \<Longrightarrow> 19243 / 1000 \<le> toFixed3 x"
  using toFixed3_ge[of x 19243] by simp

lemma round_7: "38483 / 2000 \<le> x \<Longrightarrow> x < 38485 / 2000 \<Longrightarrow> toFixed3 x = 19242 / 1000"
  using toFixed3_ge[of x 19242] toFixed3_le[of x 19242] by simp

lemmas rounded_ABLNO_lower = chi_ABLNO_lower[THEN round_hi]
lemmas rounded_ABLNO_upper = chi_ABLNO_upper[THEN round_lo]
lemmas rounded_ABLNO_7 = round_7[OF chi_ABLNO_7]

lemma upper_ABLNO: "list_all isUpper [65, 66, 76, 78, 79]"
  by (simp add: isUpper_def)

lemma bestShift_ABLNO: "bestShift [65, 66, 76, 78, 79] = 7"
proof (rule bestShift_unique)
  show "(7::nat) < 26" by simp
  show "\<forall>s<26. toFixed3 (chiForShift [65, 66, 76, 78, 79] (int 7))
               \<le> toFixed3 (chiForShift [65, 66, 76, 78, 79] (int s))"
    unfolding all_less_upt upt26 chiForShift_units[OF upper_ABLNO]
    using rounded_ABLNO_lower rounded_ABLNO_upper
    by (simp add: rounded_ABLNO_7)
  show "\<forall>s<7. toFixed3 (chiForShift [65, 66, 76, 78, 79] (int 7))
               < toFixed3 (chiForShift [65, 66, 76, 78, 79] (int s))"
    unfolding all_less_upt upt7 chiForShift_units[OF upper_ABLNO]
    using rounded_ABLNO_lower
    by (simp add: rounded_ABLNO_7)
qed

text \<open>
  Claim C1, as amended.  For every non-empty column of uppercase letters and every shift
  from 0 to 25, \<open>chiForShift\<close> is \<open>\<Sum> (O\<^sub>i - E\<^sub>i)\<^sup>2 / E\<^sub>i\<close> over the 26 letters, with
  \<open>O\<close> the histogram of \<open>(letterValue - shift) mod 26\<close> and \<open>E\<^sub>i = englishFreq\<^sub>i \<times> N\<close>:
  the divisor is \<open>E\<^sub>i\<close> itself, which is never zero.
\<close>

theorem chiForShift_formula:
  assumes "col \<noteq> []" "list_all isUpper col" "0 \<le> shift" "shift \<le> 25"
  shows "chiForShift col shift =
           (\<Sum>i\<leftarrow>[0..<26].
              (of_nat (observed col shift i) - expected col i)\<^sup>2 / expected col i)"
proof -
  let ?N = "length col"
  have N: "0 < ?N" using assms(1) by simp
  have freq: "foldl (freqStep shift) (replicate 26 0) (codePointHeads col)
              = map (observed col shift) [0..<26]"
    using foldl_freqStep[OF assms(2) _ assms(3,4), of "replicate 26 0"]
    by (simp add: no_surrogate_heads[OF assms(2)] cong: map_cong)
  have tm: "chiTerm (map (observed col shift) [0..<26]) ?N i
              = (of_nat (observed col shift i) - expected col i)\<^sup>2 / expected col i"
    if "i < 26" for i
  proof -
    have "expected col i \<noteq> 0"
      using ENG_pos[OF that] N by (simp add: expected_def)
    then show ?thesis
      using that by (simp add: chiTerm_def Let_def orOne_def expected_def power2_eq_square)
  qed
  have "chiForShift col shift
        = sum_list (map (chiTerm (map (observed col shift) [0..<26]) ?N) [0..<26])"
    using N by (simp add: chiForShift_def Let_def freq foldl_add)
  also have "\<dots> = (\<Sum>i\<leftarrow>[0..<26].
                         (of_nat (observed col shift i) - expected col i)\<^sup>2 / expected col i)"
    by (rule arg_cong[where f = sum_list], rule map_cong) (simp_all add: tm)
  finally show ?thesis .
qed


theorem chiForShift_formula_witness:
  "[65, 66, 76, 78, 79] \<noteq> ([]::nat list) \<and> list_all isUpper [65, 66, 76, 78, 79]
   \<and> (0::int) \<le> 7 \<and> (7::int) \<le> 25
   \<and> chiForShift [65, 66, 76, 78, 79] 7 =
       (\<Sum>i\<leftarrow>[0..<26].
          (of_nat (observed [65, 66, 76, 78, 79] 7 i) - expected [65, 66, 76, 78, 79] i)\<^sup>2
          / expected [65, 66, 76, 78, 79] i)"
proof -
  have h: "[65, 66, 76, 78, 79] \<noteq> ([]::nat list)" "(0::int) \<le> 7" "(7::int) \<le> 25"
    by simp_all
  from chiForShift_formula[OF h(1) upper_ABLNO h(2,3)] h upper_ABLNO show ?thesis
    by blast
qed


text \<open>
  Claim C1, as stated, fails: on the column \<open>"A"\<close> with shift 0 every \<open>E\<^sub>i\<close> is below
  1, and the code divides by \<open>E\<^sub>i\<close> where the stated formula divides by 1.
\<close>

theorem chiForShift_not_max_guard: "chiForShift [65] 0 \<noteq> chiSpec [65] 0"
proof -
  have "list_all isUpper [65]" by (simp add: isUpper_def)
  then have "chiForShift [65] 0 = 9183291833 / 816700000"
    by (simp only: chiForShift_units chiUnits_A)
  then show ?thesis by (simp add: chiSpec_A)
qed

text \<open>
  Claim C6, as amended.  \<open>bestShift\<close> is the smallest shift in \<open>[0, 25]\<close> at which
  \<open>chiForShift\<close>, rounded to three decimal places, is minimal: no shift has a smaller
  rounded score, and every smaller shift has a strictly larger one.
\<close>

theorem bestShift_rounded_argmin:
  "bestShift col < 26
   \<and> (\<forall>s<26. toFixed3 (chiForShift col (int (bestShift col)))
              \<le> toFixed3 (chiForShift col (int s)))
   \<and> (\<forall>s<bestShift col.
         toFixed3 (chiForShift col (int (bestShift col))) < toFixed3 (chiForShift col (int s)))"
  by (rule bestShift_least_min)

theorem bestShift_rounded_argmin_witness:
  "bestShift [65, 66, 76, 78, 79] < 26
   \<and> (9::nat) < 26
   \<and> toFixed3 (chiForShift [65, 66, 76, 78, 79] (int (bestShift [65, 66, 76, 78, 79])))
       \<le> toFixed3 (chiForShift [65, 66, 76, 78, 79] (int 9))
   \<and> 3 < bestShift [65, 66, 76, 78, 79]
   \<and> toFixed3 (chiForShift [65, 66, 76, 78, 79] (int (bestShift [65, 66, 76, 78, 79])))
       < toFixed3 (chiForShift [65, 66, 76, 78, 79] (int 3))"
proof -
  have a: "(9::nat) < 26" by simp
  have b: "3 < bestShift [65, 66, 76, 78, 79]" by (simp add: bestShift_ABLNO)
  from bestShift_rounded_argmin[of "[65, 66, 76, 78, 79]"] a b show ?thesis by blast
qed

text \<open>
  Claim C6, as stated, fails: on the column \<open>"ABLNO"\<close> the scores of the shifts 7 and 9
  round to the same 19.242, so the code answers 7, while the score of shift 9 is strictly
  smaller than that of shift 7.
\<close>

theorem bestShift_not_argmin:
  "bestShift [65, 66, 76, 78, 79] = 7
   \<and> chiForShift [65, 66, 76, 78, 79] 9 < chiForShift [65, 66, 76, 78, 79] 7"
  using chi_ABLNO_9_7 by (simp add: bestShift_ABLNO chiForShift_units[OF upper_ABLNO])

subsection \<open>Working key length\<close>

lemma hd_insort_key:
  "hd (insort_key f x ys) = (if ys = [] \<or> f x \<le> f (hd ys) then x else hd ys)"
  by (cases ys) auto

lemma sort_key_Nil_iff: "sort_key f xs = [] \<longleftrightarrow> xs = []"
  by (metis length_0_conv length_sort)

lemma hd_sort_key_stable:
  "xs \<noteq> [] \<Longrightarrow>
   \<exists>i<length xs. hd (sort_key f xs) = xs ! i \<and> (\<forall>j<length xs. f (xs ! i) \<le> f (xs ! j))
                  \<and> (\<forall>j<i. f (xs ! i) < f (xs ! j))"
proof (induction xs)
  case Nil
  then show ?case by simp
next
  case (Cons x xs)
  show ?case
  proof (cases "xs = []")
    case True
    then show ?thesis by simp
  next
    case False
    from Cons.IH[OF False] obtain i where i:
      "i < length xs" "hd (sort_key f xs) = xs ! i"
      "\<forall>j<length xs. f (xs ! i) \<le> f (xs ! j)" "\<forall>j<i. f (xs ! i) < f (xs ! j)"
      by blast
    have ne: "sort_key f xs \<noteq> []" using False by (simp add: sort_key_Nil_iff)
    have hd: "hd (sort_key f (x # xs)) = (if f x \<le> f (xs ! i) then x else xs ! i)"
      using ne i(2) by (simp add: hd_insort_key)
    show ?thesis
    proof (cases "f x \<le> f (xs ! i)")
      case True
      have "\<forall>j<length (x # xs). f ((x # xs) ! 0) \<le> f ((x # xs) ! j)"
      proof (intro allI impI)
        fix j assume "j < length (x # xs)"
        then show "f ((x # xs) ! 0) \<le> f ((x # xs) ! j)"
          using True i(3) by (cases j) (auto intro: order_trans)
      qed
      then show ?thesis
        using hd True by (intro exI[of _ 0]) simp
    next
      case nle: False
      have a: "\<forall>j<length (x # xs). f ((x # xs) ! Suc i) \<le> f ((x # xs) ! j)"
      proof (intro allI impI)
        fix j assume "j < length (x # xs)"
        then show "f ((x # xs) ! Suc i) \<le> f ((x # xs) ! j)"
          using nle i(3) by (cases j) auto
      qed
      have b: "\<forall>j<Suc i. f ((x # xs) ! Suc i) < f ((x # xs) ! j)"
      proof (intro allI impI)
        fix j assume "j < Suc i"
        then show "f ((x # xs) ! Suc i) < f ((x # xs) ! j)"
          using nle i(4) by (cases j) auto
      qed
      show ?thesis
        using hd nle i(1) a b by (intro exI[of _ "Suc i"]) simp
    qed
  qed
qed

lemma firstK_sort_desc:
  fixes table :: "(int \<times> 'v::linorder) list" and key :: "int \<times> 'v \<Rightarrow> 'w::linorder"
  assumes "table \<noteq> []" "sorted_wrt (<) (map fst table)"
    and mono: "\<And>a b. key a \<le> key b \<longleftrightarrow> snd b \<le> snd a"
  shows "\<exists>k. firstK (sort_key key table) = Some k \<and> topCandidate table k"
proof -
  from hd_sort_key_stable[OF assms(1), of key] obtain i where i:
    "i < length table" "hd (sort_key key table) = table ! i"
    "\<forall>j<length table. key (table ! i) \<le> key (table ! j)"
    "\<forall>j<i. key (table ! i) < key (table ! j)"
    by blast
  have ne: "sort_key key table \<noteq> []" using assms(1) by (simp add: sort_key_Nil_iff)
  then have fk: "firstK (sort_key key table) = Some (fst (table ! i))"
    using i(2) by (cases "sort_key key table") (simp_all add: firstK_def)
  have ord: "fst (table ! a) < fst (table ! b)" if "a < b" "b < length table" for a b
    using assms(2) that by (simp add: sorted_wrt_iff_nth_less)
  have top: "v' < snd (table ! i) \<or> (v' = snd (table ! i) \<and> fst (table ! i) \<le> k')"
    if in_t: "(k', v') \<in> set table" for k' v'
  proof (rule ccontr)
    assume neg: "\<not> (v' < snd (table ! i) \<or> (v' = snd (table ! i) \<and> fst (table ! i) \<le> k'))"
    from in_t obtain j where j: "j < length table" "table ! j = (k', v')"
      by (auto simp: in_set_conv_nth)
    have le: "v' \<le> snd (table ! i)"
      using i(3) j mono[of "table ! i" "table ! j"] by auto
    with neg have eq: "v' = snd (table ! i)" and lt: "k' < fst (table ! i)" by auto
    have "\<not> j < i"
    proof
      assume "j < i"
      then have "key (table ! i) < key (table ! j)" using i(4) by simp
      then have "\<not> key (table ! j) \<le> key (table ! i)" by simp
      then show False using mono[of "table ! j" "table ! i"] eq j(2) by simp
    qed
    then have "i \<le> j" by simp
    then have "fst (table ! i) \<le> fst (table ! j)"
      using ord[of i j] j(1) by (cases "i = j") auto
    then show False using lt j(2) by simp
  qed
  then have "\<forall>(k', v') \<in> set table.
               v' < snd (table ! i) \<or> (v' = snd (table ! i) \<and> fst (table ! i) \<le> k')"
    by blast
  moreover have "(fst (table ! i), snd (table ! i)) \<in> set table"
    using i(1) by simp
  ultimately have "topCandidate table (fst (table ! i))"
    unfolding topCandidate_def by blast
  then show ?thesis using fk by blast
qed

lemma kasiskiData_set:
  "set (kasiskiData kasiskiVotes maxK) = {d \<in> set kasiskiVotes. fst d \<le> maxK}"
  by (auto simp: kasiskiData_def)

lemma kasiskiData_sorted:
  assumes "distinct (map fst kasiskiVotes)"
  shows "sorted_wrt (<) (map fst (kasiskiData kasiskiVotes maxK))"
proof -
  let ?f = "filter (\<lambda>d. fst d \<le> maxK) kasiskiVotes"
  have d: "distinct (map fst ?f)" using assms by (simp add: distinct_map_filter)
  have "distinct (map fst (sort_key fst ?f))"
    using d by (simp add: distinct_map)
  moreover have "sorted (map fst (sort_key fst ?f))" by (rule sorted_sort_key)
  ultimately show ?thesis
    by (simp add: kasiskiData_def strict_sorted_iff)
qed


lemma topCandidate_set: "set t = set t' \<Longrightarrow> topCandidate t k = topCandidate t' k"
  by (simp add: topCandidate_def)

lemma kasiskiData_Nil: "kasiskiData kasiskiVotes maxK = [] \<longleftrightarrow>
                        filter (\<lambda>d. fst d \<le> maxK) kasiskiVotes = []"
  by (simp add: kasiskiData_def sort_key_Nil_iff)

text \<open>
  Claim C3.  With no pin, the working key length is (a) the entry of the Kasiski vote
  table restricted to \<open>k \<le> maxK\<close> with the most votes, the smallest \<open>k\<close> among equal
  votes; (b) when that restricted table is empty, the entry of the IoC sweep with the
  highest mean IoC, the smallest \<open>k\<close> among equal values; (c) 1 when both are empty.  A
  pin is returned as it is.  The vote table has each key once, the sweep is in ascending
  order of \<open>k\<close>, and no key is 0.
\<close>

theorem workingK_policy:
  assumes "distinct (map fst kasiskiVotes)"
    and "\<forall>d\<in>set kasiskiVotes. fst d \<noteq> 0"
    and "sorted_wrt (<) (map fst iocData)"
    and "\<forall>d\<in>set iocData. fst d \<noteq> 0"
  shows "(filter (\<lambda>d. fst d \<le> maxK) kasiskiVotes \<noteq> [] \<longrightarrow>
            topCandidate (filter (\<lambda>d. fst d \<le> maxK) kasiskiVotes)
              (workingK None (kasiskiData kasiskiVotes maxK) iocData))
       \<and> (filter (\<lambda>d. fst d \<le> maxK) kasiskiVotes = [] \<and> iocData \<noteq> [] \<longrightarrow>
            topCandidate iocData (workingK None (kasiskiData kasiskiVotes maxK) iocData))
       \<and> (filter (\<lambda>d. fst d \<le> maxK) kasiskiVotes = [] \<and> iocData = [] \<longrightarrow>
            workingK None (kasiskiData kasiskiVotes maxK) iocData = 1)
       \<and> (pin \<noteq> 0 \<longrightarrow> workingK (Some pin) (kasiskiData kasiskiVotes maxK) iocData = pin)"
proof -
  let ?kd = "kasiskiData kasiskiVotes maxK"
  let ?rt = "filter (\<lambda>d. fst d \<le> maxK) kasiskiVotes"
  have same: "set ?kd = set ?rt" by (simp add: kasiskiData_def)
  have a: "topCandidate ?rt (workingK None ?kd iocData)" if "?rt \<noteq> []"
  proof -
    have ne: "?kd \<noteq> []" using that by (simp add: kasiskiData_Nil)
    from firstK_sort_desc[OF ne kasiskiData_sorted[OF assms(1)], of "\<lambda>d. - int (snd d)"]
    obtain k where k: "firstK (sort_key (\<lambda>d. - int (snd d)) ?kd) = Some k" "topCandidate ?kd k"
      by auto
    from k(2) have "k \<noteq> 0"
      using assms(2) by (auto simp: topCandidate_def kasiskiData_set)
    then have "workingK None ?kd iocData = k"
      using k(1) by (simp add: workingK_def truthy_def orElse_def)
    then show ?thesis using k(2) topCandidate_set[OF same] by simp
  qed
  have b: "topCandidate iocData (workingK None ?kd iocData)" if e: "?rt = []" and ne: "iocData \<noteq> []"
  proof -
    have e': "?kd = []" using e by (simp add: kasiskiData_Nil)
    from firstK_sort_desc[OF ne assms(3), of "\<lambda>d. - snd d"]
    obtain k where k: "firstK (sort_key (\<lambda>d. - snd d) iocData) = Some k" "topCandidate iocData k"
      by auto
    from k(2) have "k \<noteq> 0"
      using assms(4) by (auto simp: topCandidate_def)
    then have "workingK None ?kd iocData = k"
      using k(1) e' by (simp add: workingK_def truthy_def orElse_def firstK_def)
    then show ?thesis using k(2) by simp
  qed
  have c: "workingK None ?kd iocData = 1" if "?rt = []" "iocData = []"
  proof -
    have "?kd = []" using that(1) by (simp add: kasiskiData_Nil)
    then show ?thesis
      using that(2) by (simp add: workingK_def truthy_def orElse_def firstK_def)
  qed
  have d: "workingK (Some pin) ?kd iocData = pin" if "pin \<noteq> 0"
    using that by (simp add: workingK_def truthy_def)
  show ?thesis using a b c d by blast
qed

theorem workingK_policy_witness:
  "filter (\<lambda>d. fst d \<le> 10) ([(3, 4), (2, 2), (6, 4), (12, 9)] :: (int \<times> nat) list)
     = [(3, 4), (2, 2), (6, 4)]
   \<and> kasiskiData [(3, 4), (2, 2), (6, 4), (12, 9)] 10 = [(2, 2), (3, 4), (6, 4)]
   \<and> workingK None (kasiskiData [(3, 4), (2, 2), (6, 4), (12, 9)] 10) [(1, 1 / 20), (2, 3 / 50)] = 3
   \<and> topCandidate
        (filter (\<lambda>d. fst d \<le> 10) ([(3, 4), (2, 2), (6, 4), (12, 9)] :: (int \<times> nat) list))
        (workingK None (kasiskiData [(3, 4), (2, 2), (6, 4), (12, 9)] 10)
           [(1, 1 / 20), (2, 3 / 50)])
   \<and> workingK (Some 4) (kasiskiData [(3, 4), (2, 2), (6, 4), (12, 9)] 10)
        [(1, 1 / 20), (2, 3 / 50)] = 4
   \<and> kasiskiData [] 10 = []
   \<and> workingK None (kasiskiData [] 10)
        [(1, 2 / 50), (2, 1 / 50), (3, 1 / 20), (4, 2 / 50), (5, 3 / 50), (6, 3 / 50)] = 5
   \<and> topCandidate
        ([(1, 2 / 50), (2, 1 / 50), (3, 1 / 20), (4, 2 / 50), (5, 3 / 50), (6, 3 / 50)]
           :: (int \<times> rat) list)
        (workingK None (kasiskiData [] 10)
           [(1, 2 / 50), (2, 1 / 50), (3, 1 / 20), (4, 2 / 50), (5, 3 / 50), (6, 3 / 50)])
   \<and> workingK None (kasiskiData [] 10) [] = 1"
proof -
  let ?kv = "[(3, 4), (2, 2), (6, 4), (12, 9)] :: (int \<times> nat) list"
  let ?i2 = "[(1, 1 / 20), (2, 3 / 50)] :: (int \<times> rat) list"
  let ?i6 = "[(1, 2 / 50), (2, 1 / 50), (3, 1 / 20), (4, 2 / 50), (5, 3 / 50), (6, 3 / 50)]
             :: (int \<times> rat) list"
  have kv: "distinct (map fst ?kv)" "\<forall>d\<in>set ?kv. fst d \<noteq> 0"
    and nil: "distinct (map fst ([] :: (int \<times> nat) list))"
             "\<forall>d\<in>set ([] :: (int \<times> nat) list). fst d \<noteq> 0"
    and i2: "sorted_wrt (<) (map fst ?i2)" "\<forall>d\<in>set ?i2. fst d \<noteq> 0"
    and i6: "sorted_wrt (<) (map fst ?i6)" "\<forall>d\<in>set ?i6. fst d \<noteq> 0"
    and i0: "sorted_wrt (<) (map fst ([] :: (int \<times> rat) list))"
            "\<forall>d\<in>set ([] :: (int \<times> rat) list). fst d \<noteq> 0"
    by simp_all
  have f: "filter (\<lambda>d. fst d \<le> 10) ?kv = [(3, 4), (2, 2), (6, 4)]"
          "filter (\<lambda>d. fst d \<le> 10) ([] :: (int \<times> nat) list) = []"
    by simp_all
  have e1: "kasiskiData ?kv 10 = [(2, 2), (3, 4), (6, 4)]" "kasiskiData [] 10 = []"
    by (simp_all add: kasiskiData_def)
  have e2: "workingK None [(2, 2), (3, 4), (6, 4)] ?i2 = 3" "workingK None [] ?i6 = 5"
    by (simp_all add: workingK_def truthy_def orElse_def firstK_def)
  have ne: "?i6 \<noteq> []" "(4::int) \<noteq> 0"
    by simp_all
  from workingK_policy[OF kv i2, of 10 4] ne
  have a: "topCandidate (filter (\<lambda>d. fst d \<le> 10) ?kv) (workingK None (kasiskiData ?kv 10) ?i2)"
    and p: "workingK (Some 4) (kasiskiData ?kv 10) ?i2 = 4"
    by (simp_all add: f)
  from workingK_policy[OF nil i6, of 10 4] ne
  have b: "topCandidate ?i6 (workingK None (kasiskiData [] 10) ?i6)"
    by simp
  from workingK_policy[OF nil i0, of 10 4]
  have c: "workingK None (kasiskiData [] 10) [] = 1"
    by simp
  show ?thesis using a b c p f(1) e1 e2 by (simp only:)
qed

subsection \<open>Decoder\<close>

lemma surrogate_not_letter: "isHighSurrogate c \<Longrightarrow> \<not> isAsciiLetter c"
  "isLowSurrogate c \<Longrightarrow> \<not> isAsciiLetter c"
  by (auto simp: isHighSurrogate_def isLowSurrogate_def isAsciiLetter_def)

lemma foldl_decodeStep:
  "snd (foldl (decodeStep ks k) (j, out) (codePoints s)) = out @ decodeUnits ks k j s"
proof (induction s arbitrary: j out rule: codePoints.induct)
  case 1
  then show ?case by simp
next
  case (2 c)
  then show ?case by simp
next
  case (3 c d cs)
  show ?case
  proof (cases "isHighSurrogate c \<and> isLowSurrogate d")
    case True
    have "codePoints (c # d # cs) = [c, d] # codePoints cs"
      using True by simp
    moreover have "\<not> isAsciiLetter c" "\<not> isAsciiLetter d"
      using True surrogate_not_letter by simp_all
    ultimately show ?thesis
      using "3.IH"(1)[OF True, of j "out @ [c, d]"] by simp
  next
    case False
    have cp: "codePoints (c # d # cs) = [c] # codePoints (d # cs)"
      using False by auto
    show ?thesis
    proof (cases "isAsciiLetter c")
      case True
      then show ?thesis
        unfolding cp using "3.IH"(2)[OF False, of "j + 1" "out @ [decodeLetter ks k j c]"]
        by simp
    next
      case nl: False
      then show ?thesis
        unfolding cp using "3.IH"(2)[OF False, of j "out @ [c]"]
        by simp
    qed
  qed
qed

lemma decodePartial_units:
  "decodePartial s ks k = (if k \<le> 0 then s else decodeUnits ks k 0 s)"
proof (cases "s = [] \<or> k \<le> 0")
  case True
  then show ?thesis by (auto simp: decodePartial_def)
next
  case False
  then show ?thesis
    using foldl_decodeStep[of ks k 0 "[]" s]
    by (simp add: decodePartial_def)
qed

lemma length_decodeUnits: "length (decodeUnits ks k j s) = length s"
  by (induction s arbitrary: j) simp_all

lemma lettersBefore_0: "lettersBefore s 0 = 0"
  by (simp add: lettersBefore_def)

lemma lettersBefore_Suc_Cons:
  "lettersBefore (c # cs) (Suc i) = (if isAsciiLetter c then Suc (lettersBefore cs i) else lettersBefore cs i)"
  by (simp add: lettersBefore_def)

lemma nth_decodeUnits:
  "i < length s \<Longrightarrow>
   decodeUnits ks k j s ! i =
     (if isAsciiLetter (s ! i) then decodeLetter ks k (j + int (lettersBefore s i)) (s ! i)
      else s ! i)"
proof (induction s arbitrary: i j)
  case Nil
  then show ?case by simp
next
  case (Cons c cs)
  show ?case
  proof (cases i)
    case 0
    then show ?thesis by (simp add: lettersBefore_0)
  next
    case (Suc i')
    then have "i' < length cs" using Cons.prems by simp
    then show ?thesis
      using Cons.IH[of i' "j + 1"] Cons.IH[of i' j] Suc
      by (simp add: lettersBefore_Suc_Cons add.assoc)
  qed
qed



lemma isAsciiLetter_shiftLetter: "isAsciiLetter (shiftLetter s c) = isAsciiLetter c"
proof -
  have "nat ((int c - 65 + s) mod 26) < 26" "nat ((int c - 97 + s) mod 26) < 26"
    by (simp_all add: nat_less_iff)
  then show ?thesis
    unfolding isAsciiLetter_def shiftLetter_def by (simp split: if_splits)
qed

lemma length_encodeFrom: "length (encodeFrom shifts j p) = length p"
  by (induction p arbitrary: j) simp_all

lemma letters_encodeFrom:
  "map isAsciiLetter (encodeFrom shifts j p) = map isAsciiLetter p"
  by (induction p arbitrary: j) (simp_all add: isAsciiLetter_shiftLetter)

lemma lettersBefore_map:
  "lettersBefore s i = length (filter id (take i (map isAsciiLetter s)))"
  by (simp add: lettersBefore_def take_map filter_map o_def)

lemma lettersBefore_encodeFrom:
  "lettersBefore (encodeFrom shifts j p) i = lettersBefore p i"
  by (simp only: lettersBefore_map letters_encodeFrom)

lemma nth_encodeFrom:
  "i < length p \<Longrightarrow>
   encodeFrom shifts j p ! i =
     (if isAsciiLetter (p ! i)
      then shiftLetter (shifts ! ((j + lettersBefore p i) mod length shifts)) (p ! i)
      else p ! i)"
proof (induction p arbitrary: i j)
  case Nil
  then show ?case by simp
next
  case (Cons c cs)
  show ?case
  proof (cases i)
    case 0
    then show ?thesis by (simp add: lettersBefore_0)
  next
    case (Suc i')
    then have "i' < length cs" using Cons.prems by simp
    then show ?thesis
      using Cons.IH[of i' "j + 1"] Cons.IH[of i' j] Suc
      by (simp add: lettersBefore_Suc_Cons)
  qed
qed

lemma unshift_mod: "((x + s) mod 26 - s + 26) mod 26 = x mod (26::int)"
proof -
  have "((x + s) mod 26 - s + 26) mod 26 = ((x + s) mod 26 + (26 - s)) mod 26"
    by (simp add: algebra_simps)
  also have "\<dots> = ((x + s) + (26 - s)) mod 26"
    by (rule mod_add_left_eq)
  also have "\<dots> = (x + 26) mod 26"
    by (simp add: algebra_simps)
  also have "\<dots> = x mod 26"
    by simp
  finally show ?thesis .
qed

lemma decode_unshift:
  assumes "validShift s" "0 \<le> x" "x < 26"
  shows "fromCharCode (jsrem (65 + (x + s) mod 26 - 65 - s + 26) 26 + 65) = nat (65 + x)"
proof -
  have e: "0 \<le> (x + s) mod 26" by simp
  have nn: "0 \<le> (x + s) mod 26 - s + 26"
    using e assms(1) unfolding validShift_def by linarith
  have "jsrem ((x + s) mod 26 - s + 26) 26 = ((x + s) mod 26 - s + 26) mod 26"
    using nn by (simp add: jsrem_def)
  also have "\<dots> = x mod 26" by (rule unshift_mod)
  also have "\<dots> = x" using assms(2,3) by simp
  finally have "jsrem (65 + (x + s) mod 26 - 65 - s + 26) 26 = x" by simp
  then show ?thesis using assms(2,3) by (simp add: fromCharCode_def)
qed

lemma decode_shiftLetter:
  assumes "validShift s" "isAsciiLetter c"
  shows "fromCharCode (jsrem (int (toUpperCase (shiftLetter s c)) - 65 - s + 26) 26 + 65)
         = toUpperCase c"
proof (cases "c \<le> 90")
  case True
  then have c: "65 \<le> c" "c \<le> 90" using assms(2) by (simp_all add: isAsciiLetter_def)
  define x where "x = int c - 65"
  have x: "0 \<le> x" "x < 26" using c by (simp_all add: x_def)
  have lt: "nat ((x + s) mod 26) < 26" by (simp add: nat_less_iff)
  have sl: "shiftLetter s c = 65 + nat ((x + s) mod 26)"
    using c by (simp add: shiftLetter_def x_def)
  have up: "int (toUpperCase (shiftLetter s c)) = 65 + (x + s) mod 26"
    using lt by (simp add: sl toUpperCase_def)
  have "toUpperCase c = nat (65 + x)" using c by (simp add: toUpperCase_def x_def)
  then show ?thesis
    unfolding up using decode_unshift[OF assms(1) x] by simp
next
  case False
  then have c: "97 \<le> c" "c \<le> 122" using assms(2) by (simp_all add: isAsciiLetter_def)
  define x where "x = int c - 97"
  have x: "0 \<le> x" "x < 26" using c by (simp_all add: x_def)
  have lt: "nat ((x + s) mod 26) < 26" by (simp add: nat_less_iff)
  have sl: "shiftLetter s c = 97 + nat ((x + s) mod 26)"
    using c by (simp add: shiftLetter_def x_def)
  have "toUpperCase (97 + nat ((x + s) mod 26)) = 65 + nat ((x + s) mod 26)"
    using lt by (simp add: toUpperCase_def)
  then have up: "int (toUpperCase (shiftLetter s c)) = 65 + (x + s) mod 26"
    by (simp add: sl)
  have "toUpperCase c = nat (65 + x)" using c by (simp add: toUpperCase_def x_def)
  then show ?thesis
    unfolding up using decode_unshift[OF assms(1) x] by simp
qed


lemma jsrem_nat: "0 < k \<Longrightarrow> jsrem (int j) (int k) = int (j mod k)"
  by (simp add: jsrem_def zmod_int)

lemma toUpperCase_upper: "isAsciiLetter c \<Longrightarrow> isUpper (toUpperCase c)"
  by (auto simp: isAsciiLetter_def isUpper_def toUpperCase_def)

lemma decode_upper:
  assumes "validShift s" "isUpper u"
  shows "isUpper (fromCharCode (jsrem (int u - 65 - s + 26) 26 + 65))"
proof -
  define r where "r = jsrem (int u - 65 - s + 26) 26"
  have nn: "0 \<le> int u - 65 - s + 26"
    using assms unfolding validShift_def isUpper_def by linarith
  then have "r = (int u - 65 - s + 26) mod 26"
    by (simp add: jsrem_def r_def)
  moreover have "0 \<le> (int u - 65 - s + 26) mod 26" "(int u - 65 - s + 26) mod 26 < 26"
    by simp_all
  ultimately have r: "0 \<le> r" "r < 26"
    by simp_all
  then have "fromCharCode (r + 65) = nat (r + 65)"
    by (simp add: fromCharCode_def)
  moreover have "65 \<le> nat (r + 65)" "nat (r + 65) \<le> 90"
    using r by linarith+
  ultimately show ?thesis
    unfolding r_def by (simp add: isUpper_def)
qed

lemma decodeLetter_cases:
  assumes "validKeyState ks" "isAsciiLetter c"
  shows "decodeLetter ks k j c = placeholder \<or> isUpper (decodeLetter ks k j c)"
proof (cases "jsIndex ks (jsrem j k)")
  case None
  then show ?thesis by (simp add: decodeLetter_def)
next
  case (Some slot)
  show ?thesis
  proof (cases slot)
    case None
    then show ?thesis using Some by (simp add: decodeLetter_def)
  next
    case (Some s)
    have "slot \<in> set ks"
      using \<open>jsIndex ks (jsrem j k) = Some slot\<close>
      by (auto simp: jsIndex_def split: if_splits)
    then have "validShift s"
      using assms(1) Some by (auto simp: validKeyState_def list_all_iff)
    then show ?thesis
      using decode_upper[OF _ toUpperCase_upper[OF assms(2)], of s]
            \<open>jsIndex ks (jsrem j k) = Some slot\<close> Some
      by (simp add: decodeLetter_def)
  qed
qed

lemmas decode_eval =
  decodePartial_def isHighSurrogate_def isLowSurrogate_def isAsciiLetter_def decodeLetter_def
  jsIndex_def jsrem_def fromCharCode_def toUpperCase_def placeholder_def

text \<open>
  Claim C9.  The string returned by \<open>decodePartial\<close> has the length of the raw input,
  for every key-shift list and every \<open>k\<close>.  For \<open>k \<ge> 1\<close> and shifts between 0 and 25,
  position by position: a letter gives the placeholder or an uppercase letter, and any
  other character gives itself.
\<close>

theorem decodePartial_length:
  "length (decodePartial raw keyShifts k) = length raw
   \<and> (1 \<le> k \<and> validKeyState keyShifts \<longrightarrow>
        (\<forall>i<length raw.
           if isAsciiLetter (raw ! i)
           then decodePartial raw keyShifts k ! i = placeholder
                \<or> isUpper (decodePartial raw keyShifts k ! i)
           else decodePartial raw keyShifts k ! i = raw ! i))"
  by (simp add: decodePartial_units length_decodeUnits nth_decodeUnits decodeLetter_cases)

theorem decodePartial_length_witness:
  "length (decodePartial [72, 105, 33, 120] [Some 1, None] 2) = length [72, 105, 33, 120::nat]
   \<and> (1::int) \<le> 2 \<and> validKeyState [Some 1, None]
   \<and> decodePartial [72, 105, 33, 120] [Some 1, None] 2 = [71, 183, 33, 87]
   \<and> isUpper (decodePartial [72, 105, 33, 120] [Some 1, None] 2 ! 0)
   \<and> decodePartial [72, 105, 33, 120] [Some 1, None] 2 ! 1 = placeholder
   \<and> decodePartial [72, 105, 33, 120] [Some 1, None] 2 ! 2 = [72, 105, 33, 120] ! 2"
proof -
  have h: "(1::int) \<le> 2" "validKeyState [Some 1, None]"
    by (simp_all add: validKeyState_def validShift_def)
  have e: "decodePartial [72, 105, 33, 120] [Some 1, None] 2 = [71, 183, 33, 87]"
    by (simp add: decode_eval)
  have v: "isUpper ([71, 183, 33, 87] ! 0)" "[71, 183, 33, 87] ! 1 = placeholder"
          "[71, 183, 33, 87] ! 2 = [72, 105, 33, 120::nat] ! 2"
    by (simp_all add: isUpper_def placeholder_def)
  from decodePartial_length[of "[72, 105, 33, 120]" "[Some 1, None]" 2] h e v
  show ?thesis by simp
qed

text \<open>
  Claim C10.  \<open>decodePartial\<close> is total, also when the key-shift list is shorter than
  \<open>k\<close>: a letter whose column (the letters seen so far modulo \<open>k\<close>) has no entry in
  the list is rendered as the placeholder, and the result is the one obtained when the
  list is padded to length \<open>k\<close> with undetermined slots.
\<close>

theorem decodePartial_short_key:
  assumes "1 \<le> k"
  shows "length (decodePartial raw keyShifts k) = length raw
       \<and> (\<forall>i<length raw.
            isAsciiLetter (raw ! i) \<and> length keyShifts \<le> lettersBefore raw i mod nat k
            \<longrightarrow> decodePartial raw keyShifts k ! i = placeholder)
       \<and> decodePartial raw keyShifts k
           = decodePartial raw (keyShifts @ replicate (nat k - length keyShifts) None) k"
proof -
  have k: "0 < nat k" "k = int (nat k)" using assms by simp_all
  have idx: "jsrem (int n) k = int (n mod nat k)" for n
    using jsrem_nat[OF k(1), of n] k(2) by simp
  have a: "decodeLetter keyShifts k (int n) c = placeholder"
    if "length keyShifts \<le> n mod nat k" for n c
    using that by (simp add: decodeLetter_def idx jsIndex_def)
  have b: "decodeLetter (keyShifts @ replicate m None) k j c = decodeLetter keyShifts k j c"
    for m j c
    by (auto simp: decodeLetter_def jsIndex_def nth_append split: option.splits)
  have c: "decodeUnits (keyShifts @ replicate m None) k j s = decodeUnits keyShifts k j s"
    for m j s
    by (induction s arbitrary: j) (simp_all add: b)
  show ?thesis
    using assms by (simp add: decodePartial_units length_decodeUnits nth_decodeUnits a c)
qed


theorem decodePartial_short_key_witness:
  "(1::int) \<le> 3
   \<and> length (decodePartial [72, 105, 33, 120, 121] [Some 1] 3) = length [72, 105, 33, 120, 121::nat]
   \<and> isAsciiLetter ([72, 105, 33, 120, 121] ! 1)
   \<and> length [Some (1::int)] \<le> lettersBefore [72, 105, 33, 120, 121] 1 mod nat 3
   \<and> decodePartial [72, 105, 33, 120, 121] [Some 1] 3 ! 1 = placeholder
   \<and> decodePartial [72, 105, 33, 120, 121] [Some 1] 3 = [71, 183, 33, 183, 88]
   \<and> decodePartial [72, 105, 33, 120, 121] [Some 1] 3
       = decodePartial [72, 105, 33, 120, 121] ([Some 1] @ replicate (nat 3 - length [Some (1::int)]) None) 3"
proof -
  have h: "(1::int) \<le> 3" by simp
  have i: "(1::nat) < length [72, 105, 33, 120, 121::nat]" by simp
  have l: "isAsciiLetter ([72, 105, 33, 120, 121] ! 1)" by (simp add: isAsciiLetter_def)
  have s: "length [Some (1::int)] \<le> lettersBefore [72, 105, 33, 120, 121] 1 mod nat 3"
    by (simp add: lettersBefore_def isAsciiLetter_def mod_Suc)
  have e: "decodePartial [72, 105, 33, 120, 121] [Some 1] 3 = [71, 183, 33, 183, 88]"
    by (simp add: decode_eval)
  from decodePartial_short_key[OF h, of "[72, 105, 33, 120, 121]" "[Some 1]"] h i l s e
  show ?thesis by blast
qed

lemma nth_letters_encodeFrom:
  assumes "i < length p"
  shows "isAsciiLetter (encodeFrom shifts j p ! i) = isAsciiLetter (p ! i)"
proof -
  have "map isAsciiLetter (encodeFrom shifts j p) ! i = map isAsciiLetter p ! i"
    by (simp only: letters_encodeFrom)
  then show ?thesis using assms by (simp add: length_encodeFrom)
qed

lemma decodeLetter_encoded:
  assumes "shifts \<noteq> []" "list_all validShift shifts" "isAsciiLetter c"
  shows "decodeLetter (map Some shifts) (int (length shifts)) (int m)
           (shiftLetter (shifts ! (m mod length shifts)) c) = toUpperCase c"
proof -
  let ?n = "length shifts"
  have n: "0 < ?n" using assms(1) by simp
  then have lt: "m mod ?n < ?n" by simp
  have v: "validShift (shifts ! (m mod ?n))"
    using assms(2) lt by (simp add: list_all_length)
  have "jsIndex (map Some shifts) (jsrem (int m) (int ?n)) = Some (Some (shifts ! (m mod ?n)))"
    using lt by (simp add: jsrem_nat[OF n] jsIndex_def)
  then show ?thesis
    using decode_shiftLetter[OF v assms(3)] by (simp add: decodeLetter_def)
qed

lemma decodeLetter_masked:
  assumes "shifts \<noteq> []" "list_all validShift shifts" "isAsciiLetter c" "u < length shifts"
  shows "decodeLetter ((map Some shifts)[u := None]) (int (length shifts)) (int m)
           (shiftLetter (shifts ! (m mod length shifts)) c)
         = (if m mod length shifts = u then placeholder else toUpperCase c)"
proof -
  let ?n = "length shifts"
  have n: "0 < ?n" using assms(1) by simp
  then have lt: "m mod ?n < ?n" by simp
  have v: "validShift (shifts ! (m mod ?n))"
    using assms(2) lt by (simp add: list_all_length)
  have "jsIndex ((map Some shifts)[u := None]) (jsrem (int m) (int ?n))
        = Some (if m mod ?n = u then None else Some (shifts ! (m mod ?n)))"
    using lt assms(4) by (simp add: jsrem_nat[OF n] jsIndex_def nth_list_update)
  then show ?thesis
    using decode_shiftLetter[OF v assms(3)] by (simp add: decodeLetter_def)
qed

lemma toUpperCase_nonletter: "\<not> isAsciiLetter c \<Longrightarrow> toUpperCase c = c"
  by (auto simp: isAsciiLetter_def toUpperCase_def)

text \<open>
  Claim C2.  Round trip, for a key of \<open>k \<ge> 1\<close> shifts between 0 and 25: decoding the
  column-wise encryption of a plaintext with the same, fully determined key state gives
  the plaintext with its letters in upper case and every other character unchanged; with
  one slot \<open>u\<close> undetermined instead, the letters of column \<open>u\<close> become the placeholder
  and every other position decodes as before.
\<close>

theorem decodePartial_roundtrip:
  assumes "shifts \<noteq> []" and "list_all validShift shifts"
  shows "decodePartial (encodeColumns shifts plain) (map Some shifts) (int (length shifts))
           = map toUpperCase plain
       \<and> (\<forall>u<length shifts.
            length (decodePartial (encodeColumns shifts plain) ((map Some shifts)[u := None])
                      (int (length shifts))) = length plain
          \<and> (\<forall>i<length plain.
               decodePartial (encodeColumns shifts plain) ((map Some shifts)[u := None])
                 (int (length shifts)) ! i
               = (if isAsciiLetter (plain ! i) \<and> lettersBefore plain i mod length shifts = u
                  then placeholder else toUpperCase (plain ! i))))"
proof -
  let ?n = "length shifts"
  let ?enc = "encodeColumns shifts plain"
  have n: "\<not> int ?n \<le> 0" using assms(1) by simp
  have len: "length ?enc = length plain"
    by (simp add: encodeColumns_def length_encodeFrom)
  have full: "decodeUnits (map Some shifts) (int ?n) 0 ?enc ! i = toUpperCase (plain ! i)"
    if "i < length plain" for i
  proof (cases "isAsciiLetter (plain ! i)")
    case True
    then show ?thesis
      using that decodeLetter_encoded[OF assms True, of "lettersBefore plain i"]
      by (simp add: nth_decodeUnits length_encodeFrom encodeColumns_def isAsciiLetter_shiftLetter
            lettersBefore_encodeFrom nth_encodeFrom)
  next
    case False
    then show ?thesis
      using that
      by (simp add: nth_decodeUnits length_encodeFrom encodeColumns_def isAsciiLetter_shiftLetter
            nth_encodeFrom toUpperCase_nonletter)
  qed
  have masked: "decodeUnits ((map Some shifts)[u := None]) (int ?n) 0 ?enc ! i
                = (if isAsciiLetter (plain ! i) \<and> lettersBefore plain i mod ?n = u
                   then placeholder else toUpperCase (plain ! i))"
    if "i < length plain" "u < ?n" for i u
  proof (cases "isAsciiLetter (plain ! i)")
    case True
    then show ?thesis
      using that decodeLetter_masked[OF assms True that(2), of "lettersBefore plain i"]
      by (simp add: nth_decodeUnits length_encodeFrom encodeColumns_def isAsciiLetter_shiftLetter
            lettersBefore_encodeFrom nth_encodeFrom)
  next
    case False
    then show ?thesis
      using that
      by (simp add: nth_decodeUnits length_encodeFrom encodeColumns_def isAsciiLetter_shiftLetter
            nth_encodeFrom toUpperCase_nonletter)
  qed
  have "decodeUnits (map Some shifts) (int ?n) 0 ?enc = map toUpperCase plain"
    by (rule nth_equalityI) (simp_all add: length_decodeUnits len full)
  then have "decodePartial ?enc (map Some shifts) (int ?n) = map toUpperCase plain"
    using n by (simp add: decodePartial_units)
  moreover have "length (decodePartial ?enc ((map Some shifts)[u := None]) (int ?n)) = length plain"
    for u
    using n by (simp add: decodePartial_units length_decodeUnits len)
  moreover have "decodePartial ?enc ((map Some shifts)[u := None]) (int ?n) ! i
               = (if isAsciiLetter (plain ! i) \<and> lettersBefore plain i mod ?n = u
                  then placeholder else toUpperCase (plain ! i))"
    if "i < length plain" "u < ?n" for i u
    using n masked[OF that] by (simp add: decodePartial_units)
  ultimately show ?thesis by blast
qed


theorem decodePartial_roundtrip_witness:
  "[3, 1] \<noteq> ([] :: int list) \<and> list_all validShift [3, 1]
   \<and> encodeColumns [3, 1] [72, 105, 44, 32, 66, 111, 98] = [75, 106, 44, 32, 69, 112, 101]
   \<and> decodePartial (encodeColumns [3, 1] [72, 105, 44, 32, 66, 111, 98]) (map Some [3, 1])
         (int (length [3, 1::int]))
       = map toUpperCase [72, 105, 44, 32, 66, 111, 98]
   \<and> map toUpperCase [72, 105, 44, 32, 66, 111, 98] = [72, 73, 44, 32, 66, 79, 66]
   \<and> lettersBefore [72, 105, 44, 32, 66, 111, 98] 5 mod length [3, 1::int] = 1
   \<and> decodePartial (encodeColumns [3, 1] [72, 105, 44, 32, 66, 111, 98])
         ((map Some [3, 1])[1 := None]) (int (length [3, 1::int])) ! 5
       = (if isAsciiLetter ([72, 105, 44, 32, 66, 111, 98] ! 5)
             \<and> lettersBefore [72, 105, 44, 32, 66, 111, 98] 5 mod length [3, 1::int] = 1
          then placeholder else toUpperCase ([72, 105, 44, 32, 66, 111, 98] ! 5))
   \<and> decodePartial [75, 106, 44, 32, 69, 112, 101]
         ((map Some [3, 1])[1 := None]) (int (length [3, 1::int]))
       = [72, 183, 44, 32, 66, 183, 66]"
proof -
  have h1: "[3, 1] \<noteq> ([] :: int list)" by simp
  have h2: "list_all validShift [3, 1]" by (simp add: validShift_def)
  have u: "1 < length [3, 1::int]" and i: "5 < length [72, 105, 44, 32, 66, 111, 98::nat]"
    by simp_all
  have e1: "encodeColumns [3, 1] [72, 105, 44, 32, 66, 111, 98] = [75, 106, 44, 32, 69, 112, 101]"
    by (simp add: encodeColumns_def isAsciiLetter_def shiftLetter_def mod_Suc)
  have e2: "map toUpperCase [72, 105, 44, 32, 66, 111, 98] = [72, 73, 44, 32, 66, 79, 66]"
    by (simp add: toUpperCase_def)
  have e3: "decodePartial [75, 106, 44, 32, 69, 112, 101]
         ((map Some [3, 1])[1 := None]) (int (length [3, 1::int]))
       = [72, 183, 44, 32, 66, 183, 66]"
    by (simp add: decode_eval)
  have e4: "lettersBefore [72, 105, 44, 32, 66, 111, 98] 5 mod length [3, 1::int] = 1"
    by (simp add: lettersBefore_def isAsciiLetter_def mod_Suc)
  from decodePartial_roundtrip[OF h1 h2, of "[72, 105, 44, 32, 66, 111, 98]"] h1 h2 u i e1 e2 e3 e4
  show ?thesis by blast
qed

end
